theory Spec2Isabelle
  imports Main "HOL-Library.Multiset"
begin

section \<open>Session timeline model (frontend/src/types/index.ts)\<close>

text \<open>
  JavaScript numbers that hold step indices, group numbers and exit codes are modelled
  as \<open>int\<close>; optional fields (\<open>title?\<close>, \<open>tags?\<close>, \<open>replayOf?\<close>) as \<open>option\<close>, with
  \<open>None\<close> for \<open>undefined\<close>.
\<close>

datatype stepType = prompt | file_edit | command | assistant_response

datatype action = create | update | delete

text \<open>
  The \<open>data\<close> payload of the four step variants. \<open>PromptStep\<close> declares only
  \<open>data.prompt\<close>, but \<open>compareSteps\<close> also reads \<open>data.response\<close> of a prompt step, so
  the payload carries it as an optional field.
\<close>

datatype stepData =
    PromptData string "string option"
  | FileEditData string action string
  | CommandData string string string int
  | AssistantResponseData string

record step =
  stepIndex :: int
  timestamp :: string
  group :: int
  title :: "string option"
  tags :: "string list option"
  replayOf :: "int option"
  data :: stepData

fun typeOfData :: "stepData \<Rightarrow> stepType" where
  "typeOfData (PromptData p r) = prompt"
| "typeOfData (FileEditData p a c) = file_edit"
| "typeOfData (CommandData c out err x) = command"
| "typeOfData (AssistantResponseData r) = assistant_response"

definition type :: "step \<Rightarrow> stepType" where
  "type s = typeOfData (data s)"

record session =
  sessionId :: string
  sessionTitle :: string
  createdAt :: string
  steps :: "step list"
  sessionReplayOf :: "string option"
  replayFromStepIndex :: "int option"
  isReplaySession :: "bool option"

datatype status = identical | modified | added | removed

record stepComparison =
  cmpStepIndex :: int
  originalStep :: "step option"
  replayStep :: "step option"
  status :: status
  differences :: "string list"

record comparisonSummary =
  totalStepsOriginal :: nat
  totalStepsReplay :: nat
  identicalSteps :: nat
  modifiedSteps :: nat
  addedSteps :: nat
  removedSteps :: nat

record sessionComparison =
  originalSession :: session
  replaySession :: session
  stepComparisons :: "stepComparison list"
  summary :: comparisonSummary

section \<open>Rendering values inside template strings\<close>

fun digitsOf :: "nat \<Rightarrow> string" where
  "digitsOf n =
     (if n < 10 then [''0123456789'' ! n]
      else digitsOf (n div 10) @ [''0123456789'' ! (n mod 10)])"

definition showInt :: "int \<Rightarrow> string" where
  "showInt i = (if i < 0 then CHR ''-'' # digitsOf (nat (- i)) else digitsOf (nat i))"

fun showType :: "stepType \<Rightarrow> string" where
  "showType prompt = ''prompt''"
| "showType file_edit = ''file_edit''"
| "showType command = ''command''"
| "showType assistant_response = ''assistant_response''"

fun showAction :: "action \<Rightarrow> string" where
  "showAction create = ''create''"
| "showAction update = ''update''"
| "showAction delete = ''delete''"

section \<open>Comparison engine (frontend/src/utils/replayUtils.ts, lines 447-561)\<close>

text \<open>
  The \<open>switch\<close> of \<open>compareSteps\<close> has the cases \<open>'prompt'\<close>, \<open>'command'\<close> and
  \<open>'file_edit'\<close> and no default: for two \<open>'assistant_response'\<close> steps it falls through
  with the empty list. The last equation is that fall-through.
\<close>

fun compareData :: "stepData \<Rightarrow> stepData \<Rightarrow> string list" where
  "compareData (PromptData p1 r1) (PromptData p2 r2) =
     (if p1 \<noteq> p2 then [''Prompt input changed''] else []) @
     (if r1 \<noteq> r2 then [''Response output changed''] else [])"
| "compareData (CommandData c1 out1 err1 x1) (CommandData c2 out2 err2 x2) =
     (if c1 \<noteq> c2 then [''Command changed''] else []) @
     (if out1 \<noteq> out2 then [''Standard output changed''] else []) @
     (if err1 \<noteq> err2 then [''Standard error changed''] else []) @
     (if x1 \<noteq> x2
      then [''Exit code changed from '' @ showInt x1 @ '' to '' @ showInt x2] else [])"
| "compareData (FileEditData p1 a1 c1) (FileEditData p2 a2 c2) =
     (if p1 \<noteq> p2 then [''File path changed''] else []) @
     (if a1 \<noteq> a2
      then [''Action changed from '' @ showAction a1 @ '' to '' @ showAction a2] else []) @
     (if c1 \<noteq> c2 then [''File content changed''] else [])"
| "compareData d1 d2 = []"

definition compareSteps :: "step \<Rightarrow> step \<Rightarrow> string list" where
  "compareSteps origStep replStep =
     (if type origStep \<noteq> type replStep
      then [''Type changed from '' @ showType (type origStep) @ '' to '' @
            showType (type replStep)]
      else compareData (data origStep) (data replStep))"

text \<open>
  \<open>new Set([...])\<close> keeps the first occurrence of every value, in insertion order.
\<close>

fun setOf :: "int list \<Rightarrow> int list \<Rightarrow> int list" where
  "setOf seen [] = seen"
| "setOf seen (x # xs) = (if x \<in> set seen then setOf seen xs else setOf (seen @ [x]) xs)"

definition allStepIndices :: "session \<Rightarrow> session \<Rightarrow> int list" where
  "allStepIndices a b = setOf [] (map stepIndex (steps a) @ map stepIndex (steps b))"

text \<open>The body of the \<open>for\<close> loop of \<open>compareSessions\<close>, for one step index.\<close>

definition compareAt :: "session \<Rightarrow> session \<Rightarrow> int \<Rightarrow> stepComparison" where
  "compareAt a b i =
     (let origStep = find (\<lambda>s. stepIndex s = i) (steps a);
          replStep = find (\<lambda>s. stepIndex s = i) (steps b)
      in case (origStep, replStep) of
           (Some so, Some sr) \<Rightarrow>
             (let stepDifferences = compareSteps so sr
              in \<lparr>cmpStepIndex = i, originalStep = origStep, replayStep = replStep,
                  status = (if length stepDifferences > 0 then modified else identical),
                  differences = stepDifferences\<rparr>)
         | (Some so, None) \<Rightarrow>
             \<lparr>cmpStepIndex = i, originalStep = origStep, replayStep = replStep,
              status = removed, differences = [''Step was removed in replay'']\<rparr>
         | (None, Some sr) \<Rightarrow>
             \<lparr>cmpStepIndex = i, originalStep = origStep, replayStep = replStep,
              status = added, differences = [''Step was added in replay'']\<rparr>
         | (None, None) \<Rightarrow>
             \<lparr>cmpStepIndex = i, originalStep = origStep, replayStep = replStep,
              status = identical, differences = []\<rparr>)"

definition compareSessions :: "session \<Rightarrow> session \<Rightarrow> sessionComparison" where
  "compareSessions a b =
     (let scs = map (compareAt a b) (sort (allStepIndices a b))
      in \<lparr>originalSession = a, replaySession = b, stepComparisons = scs,
          summary =
            \<lparr>totalStepsOriginal = length (steps a),
             totalStepsReplay = length (steps b),
             identicalSteps = length (filter (\<lambda>sc. status sc = identical) scs),
             modifiedSteps = length (filter (\<lambda>sc. status sc = modified) scs),
             addedSteps = length (filter (\<lambda>sc. status sc = added) scs),
             removedSteps = length (filter (\<lambda>sc. status sc = removed) scs)\<rparr>\<rparr>)"

section \<open>Branch constructor (frontend/src/utils/replayUtils.ts, lines 3-80)\<close>

text \<open>
  \<open>createReplaySession\<close> has two effects besides its result: it awaits the injected
  executor and it reads the wall clock (\<open>new Date()\<close>). Both are made explicit over a
  world state \<open>'w\<close>: the executor maps a step and the current world to its outcome
  (\<open>Inl\<close> a rejection, \<open>Inr\<close> the resolved step) and the world it leaves behind; the
  clock maps a world to the ISO string it reads and the world after the reading.
  \<open>console.log\<close> and \<open>console.error\<close> are not modelled.

  Steps are values in this section. An executor is therefore a function of the step it
  is given and cannot change that step: the model covers executors that do not mutate
  their argument, as the repository's \<open>mockExecuteStep\<close> (it answers with fresh objects
  built by spreading). What the copied steps share with the original ones on the object
  heap is the subject of the next section.
\<close>

type_synonym 'w executor = "step \<Rightarrow> 'w \<Rightarrow> (string + step) \<times> 'w"

type_synonym 'w clock = "'w \<Rightarrow> string \<times> 'w"

text \<open>The only \<open>throw\<close> of the function raises a plain \<open>Error\<close> with a message.\<close>

datatype error = Error string

definition generateReplaySessionId :: "string \<Rightarrow> string \<Rightarrow> string" where
  "generateReplaySessionId originalSessionId isoText =
     originalSessionId @ ''-replay-'' @ filter (\<lambda>c. c \<noteq> CHR '':'' \<and> c \<noteq> CHR ''.'') isoText"

text \<open>
  The \<open>for\<close> loop over \<open>stepsToReplayInSameGroup\<close>, with \<open>replayedSteps\<close> as the
  accumulator. A rejection is caught and the loop is left by \<open>break\<close>.
\<close>

fun replayLoop ::
  "'w clock \<Rightarrow> 'w executor \<Rightarrow> step list \<Rightarrow> step list \<Rightarrow> 'w \<Rightarrow> step list \<times> 'w" where
  "replayLoop clk exec [] replayedSteps w = (replayedSteps, w)"
| "replayLoop clk exec (origStep # rest) replayedSteps w =
     (case exec origStep w of
        (Inl err, w1) \<Rightarrow> (replayedSteps, w1)
      | (Inr replayedStep, w1) \<Rightarrow>
          (case clk w1 of
             (now, w2) \<Rightarrow>
               replayLoop clk exec rest
                 (replayedSteps @
                    [replayedStep\<lparr>replayOf := Some (stepIndex origStep), timestamp := now\<rparr>])
                 w2))"

text \<open>
  \<open>.filter(...).map(step => ({ ...step }))\<close> on step values: the copy of a value is the
  value. The copy on the object heap, which is shallow, is \<open>unchangedStepsRefs\<close> below.
\<close>

definition unchangedSteps :: "session \<Rightarrow> int \<Rightarrow> step list" where
  "unchangedSteps originalSess targetGroup =
     map (\<lambda>s. s) (filter (\<lambda>s. group s \<le> targetGroup) (steps originalSess))"

definition stepsToReplayInSameGroup :: "session \<Rightarrow> int \<Rightarrow> int \<Rightarrow> step list" where
  "stepsToReplayInSameGroup originalSess targetGroup fromStepIndex =
     sort_key stepIndex
       (filter (\<lambda>s. group s = targetGroup \<and> stepIndex s > fromStepIndex) (steps originalSess))"

definition createReplaySession ::
  "'w clock \<Rightarrow> 'w executor \<Rightarrow> session \<Rightarrow> int \<Rightarrow> 'w \<Rightarrow> (error + session) \<times> 'w" where
  "createReplaySession clk mockExecuteStep originalSess fromStepIndex w =
     (case find (\<lambda>s. stepIndex s = fromStepIndex) (steps originalSess) of
        None \<Rightarrow>
          (Inl (Error (''Step '' @ showInt fromStepIndex @ '' not found in original session'')), w)
      | Some fromStep \<Rightarrow>
          (let targetGroup = group fromStep in
           case replayLoop clk mockExecuteStep
                  (stepsToReplayInSameGroup originalSess targetGroup fromStepIndex) [] w of
             (replayedSteps, w1) \<Rightarrow>
               (case clk w1 of
                  (now1, w2) \<Rightarrow>
                    (case clk w2 of
                       (now2, w3) \<Rightarrow>
                         (Inr \<lparr>sessionId = generateReplaySessionId (sessionId originalSess) now1,
                               sessionTitle = ''Replay of '' @ sessionTitle originalSess,
                               createdAt = now2,
                               steps = unchangedSteps originalSess targetGroup @ replayedSteps,
                               sessionReplayOf = Some (sessionId originalSess),
                               replayFromStepIndex = Some fromStepIndex,
                               isReplaySession = Some True\<rparr>,
                          w3)))))"

section \<open>The prefix copy on the object heap (replayUtils.ts, lines 27-29)\<close>

text \<open>
  In the running program a session's \<open>steps\<close> array holds references to step objects,
  and a step object holds references to its \<open>data\<close> object and its \<open>tags\<close> array. To
  talk about sharing, the heap is a list of objects and an address is an index into it;
  allocation appends. A lookup outside the heap is \<open>None\<close>.
\<close>

type_synonym addr = nat

record stepObj =
  objStepIndex :: int
  objTimestamp :: string
  objGroup :: int
  objTitle :: "string option"
  objTags :: "addr option"
  objReplayOf :: "int option"
  objData :: addr

datatype obj = StepObj stepObj | DataObj stepData | TagsObj "string list"

type_synonym heap = "obj list"

definition lookup :: "heap \<Rightarrow> addr \<Rightarrow> obj option" where
  "lookup h a = (if a < length h then Some (h ! a) else None)"

definition alloc :: "heap \<Rightarrow> obj \<Rightarrow> addr \<times> heap" where
  "alloc h ob = (length h, h @ [ob])"

text \<open>
  \<open>{ ...step }\<close>: a new object with the own properties of \<open>step\<close>. Property values are
  copied as they are, so a property that holds a reference holds the same reference in
  the new object. \<open>None\<close> is returned when the address does not hold a step object.
\<close>

definition spread :: "heap \<Rightarrow> addr \<Rightarrow> (addr \<times> heap) option" where
  "spread h a =
     (case lookup h a of
        Some (StepObj so) \<Rightarrow> Some (alloc h (StepObj so))
      | _ \<Rightarrow> None)"

text \<open>\<open>.filter(step => step.group <= targetGroup)\<close> over an array of step references.\<close>

fun filterByGroup :: "heap \<Rightarrow> int \<Rightarrow> addr list \<Rightarrow> addr list option" where
  "filterByGroup h targetGroup [] = Some []"
| "filterByGroup h targetGroup (a # as) =
     (case lookup h a of
        Some (StepObj so) \<Rightarrow>
          (case filterByGroup h targetGroup as of
             None \<Rightarrow> None
           | Some kept \<Rightarrow> Some (if objGroup so \<le> targetGroup then a # kept else kept))
      | _ \<Rightarrow> None)"

text \<open>\<open>.map(step => ({ ...step }))\<close> over an array of step references.\<close>

fun mapSpread :: "heap \<Rightarrow> addr list \<Rightarrow> (addr list \<times> heap) option" where
  "mapSpread h [] = Some ([], h)"
| "mapSpread h (a # as) =
     (case spread h a of
        None \<Rightarrow> None
      | Some (a', h1) \<Rightarrow>
          (case mapSpread h1 as of
             None \<Rightarrow> None
           | Some (copies, h2) \<Rightarrow> Some (a' # copies, h2)))"

definition unchangedStepsRefs :: "heap \<Rightarrow> addr list \<Rightarrow> int \<Rightarrow> (addr list \<times> heap) option" where
  "unchangedStepsRefs h stepRefs targetGroup =
     (case filterByGroup h targetGroup stepRefs of
        None \<Rightarrow> None
      | Some kept \<Rightarrow> mapSpread h kept)"

text \<open>The step value that a step reference stands for: the object with its references followed.\<close>

definition stepOf :: "heap \<Rightarrow> addr \<Rightarrow> step option" where
  "stepOf h a =
     (case lookup h a of
        Some (StepObj so) \<Rightarrow>
          (case lookup h (objData so) of
             Some (DataObj d) \<Rightarrow>
               (case objTags so of
                  None \<Rightarrow>
                    Some \<lparr>stepIndex = objStepIndex so, timestamp = objTimestamp so,
                          group = objGroup so, title = objTitle so, tags = None,
                          replayOf = objReplayOf so, data = d\<rparr>
                | Some t \<Rightarrow>
                    (case lookup h t of
                       Some (TagsObj ts) \<Rightarrow>
                         Some \<lparr>stepIndex = objStepIndex so, timestamp = objTimestamp so,
                               group = objGroup so, title = objTitle so, tags = Some ts,
                               replayOf = objReplayOf so, data = d\<rparr>
                     | _ \<Rightarrow> None))
           | _ \<Rightarrow> None)
      | _ \<Rightarrow> None)"

definition isStepRef :: "heap \<Rightarrow> addr \<Rightarrow> bool" where
  "isStepRef h a = (case lookup h a of Some (StepObj so) \<Rightarrow> True | _ \<Rightarrow> False)"

text \<open>
  Two later mutations through a step reference \<open>a\<close>, used to state what the copy shares:
  an assignment to a property of the step object itself (\<open>step.title = t\<close>), and a
  mutation of its payload object in place, after which the payload object holds \<open>d\<close>
  (\<open>step.data.stdout = ...\<close>).
\<close>

definition writeTitle :: "heap \<Rightarrow> addr \<Rightarrow> string option \<Rightarrow> heap" where
  "writeTitle h a t =
     (case lookup h a of
        Some (StepObj so) \<Rightarrow> h[a := StepObj (so\<lparr>objTitle := t\<rparr>)]
      | _ \<Rightarrow> h)"

definition writeData :: "heap \<Rightarrow> addr \<Rightarrow> stepData \<Rightarrow> heap" where
  "writeData h a d =
     (case lookup h a of
        Some (StepObj so) \<Rightarrow> h[objData so := DataObj d]
      | _ \<Rightarrow> h)"

section \<open>Line-level diff (spec section 4.4)\<close>

text \<open>
  \<open>DiffViewer.tsx\<close> obtains its edit script from \<open>Diff.diffLines\<close> of the imported
  package \<open>diff\<close>, whose source is not part of the repository's files. The definitions of
  this section follow the words of the specification instead.
\<close>

datatype lineKind = lineAdded | lineRemoved | lineUnchanged

record segment =
  segKind :: lineKind
  segText :: string

text \<open>
  Modelled from the spec: the line splitting of \<open>Diff.diffLines\<close> (``splits both inputs
  into line sequences'', ``operating on newline-delimited segments''). Every line keeps
  its terminating newline, so the lines of a text concatenate to the text; the empty text
  has no line.
\<close>

fun splitLines :: "string \<Rightarrow> string list" where
  "splitLines [] = []"
| "splitLines (c # cs) =
     (if c = CHR 0x0A then [c] # splitLines cs
      else (case splitLines cs of
              [] \<Rightarrow> [[c]]
            | l # ls \<Rightarrow> (c # l) # ls))"

text \<open>
  Modelled from the spec: the length of a longest common subsequence of two line
  sequences, on which the alignment of \<open>Diff.diffLines\<close> rests (``longest-common-subsequence
  alignment'').
\<close>

fun lcsLength :: "string list \<Rightarrow> string list \<Rightarrow> nat" where
  "lcsLength [] ys = 0"
| "lcsLength (x # xs) [] = 0"
| "lcsLength (x # xs) (y # ys) =
     (if x = y then Suc (lcsLength xs ys)
      else max (lcsLength xs (y # ys)) (lcsLength (x # xs) ys))"

text \<open>
  Modelled from the spec: the edit script of \<open>Diff.diffLines\<close>, line by line (``a minimal
  edit script using longest-common-subsequence alignment''). Equal heads are matched; of
  two different heads, the old line is dropped first when that keeps a longest common
  subsequence, and the new line is inserted otherwise.
\<close>

fun editScript :: "string list \<Rightarrow> string list \<Rightarrow> (lineKind \<times> string) list" where
  "editScript [] ys = map (Pair lineAdded) ys"
| "editScript (x # xs) [] = map (Pair lineRemoved) (x # xs)"
| "editScript (x # xs) (y # ys) =
     (if x = y then (lineUnchanged, x) # editScript xs ys
      else if lcsLength (x # xs) ys \<le> lcsLength xs (y # ys)
           then (lineRemoved, x) # editScript xs (y # ys)
           else (lineAdded, y) # editScript (x # xs) ys)"

text \<open>
  Modelled from the spec: the segments of \<open>Diff.diffLines\<close> (``a maximal run of matching
  lines is unchanged; a run present only in oldText is removed; a run present only in
  newText is added''). Neighbouring lines of one kind are joined into one segment.
\<close>

fun groupRuns :: "(lineKind \<times> string) list \<Rightarrow> segment list" where
  "groupRuns [] = []"
| "groupRuns ((k, l) # es) =
     (case groupRuns es of
        [] \<Rightarrow> [\<lparr>segKind = k, segText = l\<rparr>]
      | seg # segs \<Rightarrow>
          (if segKind seg = k then seg\<lparr>segText := l @ segText seg\<rparr> # segs
           else \<lparr>segKind = k, segText = l\<rparr> # seg # segs))"

text \<open>
  Modelled from the spec: \<open>diffLines(oldText, newText)\<close>, the ordered sequence of
  segments of kind added, removed or unchanged; it stands for the call of \<open>Diff.diffLines\<close>
  in \<open>DiffViewer.tsx\<close>.
\<close>

definition diffLines :: "string \<Rightarrow> string \<Rightarrow> segment list" where
  "diffLines oldText newText = groupRuns (editScript (splitLines oldText) (splitLines newText))"

section \<open>Example sessions\<close>

definition mkStep :: "int \<Rightarrow> int \<Rightarrow> stepData \<Rightarrow> step" where
  "mkStep i g d =
     \<lparr>stepIndex = i, timestamp = ''2024-01-01T00:00:00.000Z'', group = g, title = None,
      tags = None, replayOf = None, data = d\<rparr>"

definition mkSession :: "string \<Rightarrow> step list \<Rightarrow> session" where
  "mkSession sid ss =
     \<lparr>sessionId = sid, sessionTitle = ''Demo'', createdAt = ''2024-01-01T00:00:00.000Z'',
      steps = ss, sessionReplayOf = None, replayFromStepIndex = None,
      isReplaySession = None\<rparr>"

text \<open>
  An original session with step indices 1, 2, 3 and a replay with 1, 2, 4: step 1 is
  the same in both, the command of step 2 differs in stderr and exit code.
\<close>

definition exOriginal :: session where
  "exOriginal = mkSession ''s1''
     [mkStep 1 1 (PromptData ''build it'' None),
      mkStep 2 1 (CommandData ''npm test'' ''ok'' [] 0),
      mkStep 3 2 (FileEditData ''a.ts'' create ''x'')]"

definition exReplay :: session where
  "exReplay = mkSession ''s2''
     [mkStep 1 1 (PromptData ''build it'' None),
      mkStep 2 1 (CommandData ''npm test'' ''ok'' ''failed'' 1),
      mkStep 4 2 (AssistantResponseData ''done'')]"

text \<open>Two sessions whose only step is an assistant response, with different texts.\<close>

definition exAnswerA :: session where
  "exAnswerA = mkSession ''s3'' [mkStep 1 1 (AssistantResponseData ''hello'')]"

definition exAnswerB :: session where
  "exAnswerB = mkSession ''s4'' [mkStep 1 1 (AssistantResponseData ''goodbye'')]"

text \<open>
  A session of seven steps in three groups (indices 1..7, groups 1, 1, 2, 2, 2, 2, 3).
  Cutting at step 3 keeps groups 1 and 2, replays steps 4, 5 and 6 and drops step 7.
\<close>

definition exBranch :: session where
  "exBranch = mkSession ''s5''
     [mkStep 1 1 (PromptData ''start'' None),
      mkStep 2 1 (AssistantResponseData ''ok''),
      mkStep 3 2 (PromptData ''more'' None),
      mkStep 4 2 (CommandData ''ls'' ''a'' [] 0),
      mkStep 5 2 (FileEditData ''a.ts'' update ''y''),
      mkStep 6 2 (AssistantResponseData ''summary''),
      mkStep 7 3 (PromptData ''later'' None)]"

text \<open>
  Example worlds are counters of the effects performed so far. The example clock reads
  a time that shows the counter; the example executors answer after one tick.
\<close>

definition exClock :: "int clock" where
  "exClock w = (''10:00:0'' @ showInt w @ ''.5Z'', w + 1)"

text \<open>An executor that always resolves, with the step it was given retitled.\<close>

definition exExecOk :: "int executor" where
  "exExecOk s w = (Inr (s\<lparr>title := Some ''replayed''\<rparr>), w + 1)"

text \<open>
  An executor whose answer shows the world in which it was called: it resolves with the
  step it was given, retitled with that world.
\<close>

definition exExecStamp :: "int executor" where
  "exExecStamp s w = (Inr (s\<lparr>title := Some (''call '' @ showInt w)\<rparr>), w + 1)"

text \<open>
  An executor that rejects the step with index \<open>k\<close> and answers every other step as
  \<open>exExecStamp\<close> does.
\<close>

definition exExecFailAt :: "int \<Rightarrow> int executor" where
  "exExecFailAt k s w = (if stepIndex s = k then (Inl ''boom'', w + 1) else exExecStamp s w)"

text \<open>An executor that resolves with a step moved to group 99.\<close>

definition exExecRegroup :: "int executor" where
  "exExecRegroup s w = (Inr (s\<lparr>group := 99\<rparr>), w + 1)"

text \<open>
  A heap with one step object at address 0 whose payload object is at address 1, and the
  heap after the prefix copy of the session whose \<open>steps\<close> array is \<open>[0]\<close>.
\<close>

definition exStepObj :: stepObj where
  "exStepObj =
     \<lparr>objStepIndex = 1, objTimestamp = ''2024-01-01T00:00:00.000Z'', objGroup = 1,
      objTitle = None, objTags = None, objReplayOf = None, objData = 1\<rparr>"

definition exHeap :: heap where
  "exHeap = [StepObj exStepObj, DataObj (CommandData ''ls'' ''a'' [] 0)]"

definition exHeapCopied :: heap where
  "exHeapCopied = [StepObj exStepObj, DataObj (CommandData ''ls'' ''a'' [] 0), StepObj exStepObj]"

text \<open>Two texts of three lines that differ in the second line.\<close>

definition exOldText :: string where
  "exOldText = ''a'' @ [CHR 0x0A] @ ''b'' @ [CHR 0x0A] @ ''c''"

definition exNewText :: string where
  "exNewText = ''a'' @ [CHR 0x0A] @ ''x'' @ [CHR 0x0A] @ ''c''"

section \<open>Properties of the comparison engine\<close>

lemma set_setOf: "set (setOf seen xs) = set seen \<union> set xs"
  by (induction xs arbitrary: seen) auto

lemma distinct_setOf: "distinct seen \<Longrightarrow> distinct (setOf seen xs)"
  by (induction xs arbitrary: seen) auto

lemma set_allStepIndices:
  "set (allStepIndices a b) = stepIndex ` set (steps a) \<union> stepIndex ` set (steps b)"
  by (simp add: allStepIndices_def set_setOf)

lemma sort_allStepIndices:
  "sort (allStepIndices a b) =
     sorted_list_of_set (stepIndex ` set (steps a) \<union> stepIndex ` set (steps b))"
proof (rule sorted_distinct_set_unique)
  show "sorted (sort (allStepIndices a b))" by simp
  show "distinct (sort (allStepIndices a b))"
    by (simp add: allStepIndices_def distinct_setOf)
  show "sorted (sorted_list_of_set (stepIndex ` set (steps a) \<union> stepIndex ` set (steps b)))"
    by simp
  show "distinct (sorted_list_of_set (stepIndex ` set (steps a) \<union> stepIndex ` set (steps b)))"
    by simp
  show "set (sort (allStepIndices a b)) =
        set (sorted_list_of_set (stepIndex ` set (steps a) \<union> stepIndex ` set (steps b)))"
    by (simp add: set_allStepIndices)
qed

lemma cmpStepIndex_compareAt: "cmpStepIndex (compareAt a b i) = i"
  by (simp add: compareAt_def Let_def split: option.splits)

lemma find_stepIndex_None:
  "find (\<lambda>s. stepIndex s = i) xs = None \<longleftrightarrow> i \<notin> stepIndex ` set xs"
  by (auto simp: find_None_iff)

lemma status_compareAt_removed:
  "i \<in> stepIndex ` set (steps a) \<Longrightarrow> i \<notin> stepIndex ` set (steps b) \<Longrightarrow>
   status (compareAt a b i) = removed"
  using find_stepIndex_None[of i "steps a"] find_stepIndex_None[of i "steps b"]
  by (auto simp: compareAt_def Let_def split: option.splits)

lemma status_compareAt_added:
  "i \<notin> stepIndex ` set (steps a) \<Longrightarrow> i \<in> stepIndex ` set (steps b) \<Longrightarrow>
   status (compareAt a b i) = added"
  using find_stepIndex_None[of i "steps a"] find_stepIndex_None[of i "steps b"]
  by (auto simp: compareAt_def Let_def split: option.splits)

lemma stepComparisons_compareSessions:
  "stepComparisons (compareSessions a b) = map (compareAt a b) (sort (allStepIndices a b))"
  by (simp add: compareSessions_def Let_def)

lemma summary_compareSessions:
  "summary (compareSessions a b) =
     \<lparr>totalStepsOriginal = length (steps a),
      totalStepsReplay = length (steps b),
      identicalSteps = length (filter (\<lambda>sc. status sc = identical) (stepComparisons (compareSessions a b))),
      modifiedSteps = length (filter (\<lambda>sc. status sc = modified) (stepComparisons (compareSessions a b))),
      addedSteps = length (filter (\<lambda>sc. status sc = added) (stepComparisons (compareSessions a b))),
      removedSteps = length (filter (\<lambda>sc. status sc = removed) (stepComparisons (compareSessions a b)))\<rparr>"
  by (simp add: compareSessions_def Let_def)

text \<open>
  Claim C4. \<open>compareSessions\<close> produces one comparison per step index of the union of the
  two sessions' indices, in ascending order; an index found only in the first session is
  \<open>removed\<close>, one found only in the second is \<open>added\<close>; the summary's totals are the
  lengths of the two inputs' step lists and its four counts are the numbers of
  comparisons of each status.
\<close>

theorem compareSessions_union:
  "map cmpStepIndex (stepComparisons (compareSessions a b)) =
     sorted_list_of_set (stepIndex ` set (steps a) \<union> stepIndex ` set (steps b))
   \<and> (\<forall>c \<in> set (stepComparisons (compareSessions a b)).
        (cmpStepIndex c \<in> stepIndex ` set (steps a) \<and>
         cmpStepIndex c \<notin> stepIndex ` set (steps b) \<longrightarrow> status c = removed) \<and>
        (cmpStepIndex c \<notin> stepIndex ` set (steps a) \<and>
         cmpStepIndex c \<in> stepIndex ` set (steps b) \<longrightarrow> status c = added))
   \<and> totalStepsOriginal (summary (compareSessions a b)) = length (steps a)
   \<and> totalStepsReplay (summary (compareSessions a b)) = length (steps b)
   \<and> identicalSteps (summary (compareSessions a b)) =
       length (filter (\<lambda>c. status c = identical) (stepComparisons (compareSessions a b)))
   \<and> modifiedSteps (summary (compareSessions a b)) =
       length (filter (\<lambda>c. status c = modified) (stepComparisons (compareSessions a b)))
   \<and> addedSteps (summary (compareSessions a b)) =
       length (filter (\<lambda>c. status c = added) (stepComparisons (compareSessions a b)))
   \<and> removedSteps (summary (compareSessions a b)) =
       length (filter (\<lambda>c. status c = removed) (stepComparisons (compareSessions a b)))"
proof -
  have idx: "map cmpStepIndex (stepComparisons (compareSessions a b)) =
     sorted_list_of_set (stepIndex ` set (steps a) \<union> stepIndex ` set (steps b))"
    by (simp add: stepComparisons_compareSessions o_def cmpStepIndex_compareAt
        sort_allStepIndices)
  have cls: "\<forall>c \<in> set (stepComparisons (compareSessions a b)).
        (cmpStepIndex c \<in> stepIndex ` set (steps a) \<and>
         cmpStepIndex c \<notin> stepIndex ` set (steps b) \<longrightarrow> status c = removed) \<and>
        (cmpStepIndex c \<notin> stepIndex ` set (steps a) \<and>
         cmpStepIndex c \<in> stepIndex ` set (steps b) \<longrightarrow> status c = added)"
  proof
    fix c assume "c \<in> set (stepComparisons (compareSessions a b))"
    then obtain i where c: "c = compareAt a b i"
      by (auto simp: stepComparisons_compareSessions)
    show "(cmpStepIndex c \<in> stepIndex ` set (steps a) \<and>
         cmpStepIndex c \<notin> stepIndex ` set (steps b) \<longrightarrow> status c = removed) \<and>
        (cmpStepIndex c \<notin> stepIndex ` set (steps a) \<and>
         cmpStepIndex c \<in> stepIndex ` set (steps b) \<longrightarrow> status c = added)"
      unfolding c cmpStepIndex_compareAt
      using status_compareAt_removed[of i a b] status_compareAt_added[of i a b] by blast
  qed
  show ?thesis
    using idx cls by (simp add: summary_compareSessions)
qed


lemma compareAt_invariant:
  assumes "i \<in> stepIndex ` set (steps a) \<union> stepIndex ` set (steps b)"
  shows "(status (compareAt a b i) = removed \<longrightarrow>
            originalStep (compareAt a b i) \<noteq> None \<and> replayStep (compareAt a b i) = None) \<and>
         (status (compareAt a b i) = added \<longrightarrow>
            originalStep (compareAt a b i) = None \<and> replayStep (compareAt a b i) \<noteq> None) \<and>
         (status (compareAt a b i) = identical \<or> status (compareAt a b i) = modified \<longrightarrow>
            originalStep (compareAt a b i) \<noteq> None \<and> replayStep (compareAt a b i) \<noteq> None) \<and>
         (differences (compareAt a b i) = [] \<longleftrightarrow> status (compareAt a b i) = identical)"
proof -
  from assms have "\<not> (find (\<lambda>s. stepIndex s = i) (steps a) = None \<and>
                      find (\<lambda>s. stepIndex s = i) (steps b) = None)"
    by (simp add: find_stepIndex_None)
  then show ?thesis
    by (auto simp: compareAt_def Let_def split: option.splits)
qed

lemma status_partition:
  "length (filter (\<lambda>c. status c = identical) cs) + length (filter (\<lambda>c. status c = modified) cs) +
   length (filter (\<lambda>c. status c = added) cs) + length (filter (\<lambda>c. status c = removed) cs) =
   length (cs :: stepComparison list)"
proof (induction cs)
  case Nil
  show ?case by simp
next
  case (Cons c cs)
  then show ?case by (cases "status c") simp_all
qed

text \<open>
  Claim C10. In every comparison that \<open>compareSessions\<close> produces, \<open>removed\<close> goes with
  an original step and no replay step, \<open>added\<close> with a replay step and no original step,
  \<open>identical\<close> and \<open>modified\<close> with both; the difference list is empty exactly for
  \<open>identical\<close>; and the four counts of the summary add up to the number of comparisons.
\<close>

theorem compareSessions_invariant:
  "(\<forall>c \<in> set (stepComparisons (compareSessions a b)).
      (status c = removed \<longrightarrow> originalStep c \<noteq> None \<and> replayStep c = None) \<and>
      (status c = added \<longrightarrow> originalStep c = None \<and> replayStep c \<noteq> None) \<and>
      (status c = identical \<or> status c = modified \<longrightarrow>
         originalStep c \<noteq> None \<and> replayStep c \<noteq> None) \<and>
      (differences c = [] \<longleftrightarrow> status c = identical))
   \<and> identicalSteps (summary (compareSessions a b)) +
     modifiedSteps (summary (compareSessions a b)) +
     addedSteps (summary (compareSessions a b)) +
     removedSteps (summary (compareSessions a b)) =
     length (stepComparisons (compareSessions a b))"
proof -
  have each: "\<forall>c \<in> set (stepComparisons (compareSessions a b)).
      (status c = removed \<longrightarrow> originalStep c \<noteq> None \<and> replayStep c = None) \<and>
      (status c = added \<longrightarrow> originalStep c = None \<and> replayStep c \<noteq> None) \<and>
      (status c = identical \<or> status c = modified \<longrightarrow>
         originalStep c \<noteq> None \<and> replayStep c \<noteq> None) \<and>
      (differences c = [] \<longleftrightarrow> status c = identical)"
  proof
    fix c assume "c \<in> set (stepComparisons (compareSessions a b))"
    then obtain i where c: "c = compareAt a b i"
      and i: "i \<in> stepIndex ` set (steps a) \<union> stepIndex ` set (steps b)"
      by (auto simp: stepComparisons_compareSessions set_allStepIndices)
    show "(status c = removed \<longrightarrow> originalStep c \<noteq> None \<and> replayStep c = None) \<and>
      (status c = added \<longrightarrow> originalStep c = None \<and> replayStep c \<noteq> None) \<and>
      (status c = identical \<or> status c = modified \<longrightarrow>
         originalStep c \<noteq> None \<and> replayStep c \<noteq> None) \<and>
      (differences c = [] \<longleftrightarrow> status c = identical)"
      unfolding c by (rule compareAt_invariant[OF i])
  qed
  have total: "identicalSteps (summary (compareSessions a b)) +
     modifiedSteps (summary (compareSessions a b)) +
     addedSteps (summary (compareSessions a b)) +
     removedSteps (summary (compareSessions a b)) =
     length (stepComparisons (compareSessions a b))"
    by (simp add: summary_compareSessions status_partition)
  from each total show ?thesis by (rule conjI)
qed

lemma ex_indices: "sort (allStepIndices exOriginal exReplay) = [1, 2, 3, 4]"
  by (simp add: allStepIndices_def exOriginal_def exReplay_def mkSession_def mkStep_def)

lemma ex_stepComparisons:
  "stepComparisons (compareSessions exOriginal exReplay) =
     [compareAt exOriginal exReplay 1, compareAt exOriginal exReplay 2,
      compareAt exOriginal exReplay 3, compareAt exOriginal exReplay 4]"
  by (simp add: stepComparisons_compareSessions ex_indices)

lemma ex_compareAt_1:
  "compareAt exOriginal exReplay 1 =
     \<lparr>cmpStepIndex = 1, originalStep = Some (mkStep 1 1 (PromptData ''build it'' None)),
      replayStep = Some (mkStep 1 1 (PromptData ''build it'' None)),
      status = identical, differences = []\<rparr>"
  by (simp add: compareAt_def compareSteps_def type_def exOriginal_def exReplay_def
      mkSession_def mkStep_def Let_def)

lemma ex_compareAt_2:
  "compareAt exOriginal exReplay 2 =
     \<lparr>cmpStepIndex = 2, originalStep = Some (mkStep 2 1 (CommandData ''npm test'' ''ok'' [] 0)),
      replayStep = Some (mkStep 2 1 (CommandData ''npm test'' ''ok'' ''failed'' 1)),
      status = modified,
      differences = [''Standard error changed'', ''Exit code changed from 0 to 1'']\<rparr>"
  by (simp add: compareAt_def compareSteps_def type_def exOriginal_def exReplay_def
      mkSession_def mkStep_def showInt_def)

lemma ex_compareAt_3:
  "compareAt exOriginal exReplay 3 =
     \<lparr>cmpStepIndex = 3, originalStep = Some (mkStep 3 2 (FileEditData ''a.ts'' create ''x'')),
      replayStep = None, status = removed, differences = [''Step was removed in replay'']\<rparr>"
  by (simp add: compareAt_def exOriginal_def exReplay_def mkSession_def mkStep_def)

lemma ex_compareAt_4:
  "compareAt exOriginal exReplay 4 =
     \<lparr>cmpStepIndex = 4, originalStep = None,
      replayStep = Some (mkStep 4 2 (AssistantResponseData ''done'')),
      status = added, differences = [''Step was added in replay'']\<rparr>"
  by (simp add: compareAt_def exOriginal_def exReplay_def mkSession_def mkStep_def)

text \<open>The invariant of C10 on the example pair, one comparison of each status.\<close>

theorem compareSessions_invariant_witness:
  "status (compareAt exOriginal exReplay 3) = removed \<and>
   originalStep (compareAt exOriginal exReplay 3) \<noteq> None \<and>
   replayStep (compareAt exOriginal exReplay 3) = None \<and>
   status (compareAt exOriginal exReplay 4) = added \<and>
   originalStep (compareAt exOriginal exReplay 4) = None \<and>
   replayStep (compareAt exOriginal exReplay 4) \<noteq> None \<and>
   status (compareAt exOriginal exReplay 1) = identical \<and>
   differences (compareAt exOriginal exReplay 1) = [] \<and>
   status (compareAt exOriginal exReplay 2) = modified \<and>
   differences (compareAt exOriginal exReplay 2) \<noteq> [] \<and>
   identicalSteps (summary (compareSessions exOriginal exReplay)) +
   modifiedSteps (summary (compareSessions exOriginal exReplay)) +
   addedSteps (summary (compareSessions exOriginal exReplay)) +
   removedSteps (summary (compareSessions exOriginal exReplay)) = 4"
proof -
  note inv = compareSessions_invariant[of exOriginal exReplay]
  have s3: "status (compareAt exOriginal exReplay 3) = removed"
    and s4: "status (compareAt exOriginal exReplay 4) = added"
    and s1: "status (compareAt exOriginal exReplay 1) = identical"
    and s2: "status (compareAt exOriginal exReplay 2) = modified"
    by (simp_all add: ex_compareAt_1 ex_compareAt_2 ex_compareAt_3 ex_compareAt_4)
  have m: "compareAt exOriginal exReplay 1 \<in> set (stepComparisons (compareSessions exOriginal exReplay))"
      "compareAt exOriginal exReplay 2 \<in> set (stepComparisons (compareSessions exOriginal exReplay))"
      "compareAt exOriginal exReplay 3 \<in> set (stepComparisons (compareSessions exOriginal exReplay))"
      "compareAt exOriginal exReplay 4 \<in> set (stepComparisons (compareSessions exOriginal exReplay))"
    by (simp_all add: ex_stepComparisons)
  have len: "length (stepComparisons (compareSessions exOriginal exReplay)) = 4"
    by (simp add: ex_stepComparisons)
  from inv m s1 s2 s3 s4 len show ?thesis
    by (metis status.distinct(1))
qed

text \<open>The statement of C4 on the example pair (indices 1, 2, 3 against 1, 2, 4).\<close>

theorem compareSessions_union_witness:
  "map cmpStepIndex (stepComparisons (compareSessions exOriginal exReplay)) = [1, 2, 3, 4] \<and>
   3 \<in> stepIndex ` set (steps exOriginal) \<and> 3 \<notin> stepIndex ` set (steps exReplay) \<and>
   status (compareAt exOriginal exReplay 3) = removed \<and>
   4 \<notin> stepIndex ` set (steps exOriginal) \<and> 4 \<in> stepIndex ` set (steps exReplay) \<and>
   status (compareAt exOriginal exReplay 4) = added \<and>
   totalStepsOriginal (summary (compareSessions exOriginal exReplay)) = 3 \<and>
   totalStepsReplay (summary (compareSessions exOriginal exReplay)) = 3"
proof -
  note u = compareSessions_union[of exOriginal exReplay]
  have m: "compareAt exOriginal exReplay 3 \<in> set (stepComparisons (compareSessions exOriginal exReplay))"
      "compareAt exOriginal exReplay 4 \<in> set (stepComparisons (compareSessions exOriginal exReplay))"
    by (simp_all add: ex_stepComparisons)
  have a3: "3 \<in> stepIndex ` set (steps exOriginal)" "3 \<notin> stepIndex ` set (steps exReplay)"
    and a4: "4 \<notin> stepIndex ` set (steps exOriginal)" "4 \<in> stepIndex ` set (steps exReplay)"
    by (simp_all add: exOriginal_def exReplay_def mkSession_def mkStep_def)
  have un: "sorted_list_of_set (stepIndex ` set (steps exOriginal) \<union> stepIndex ` set (steps exReplay)) = [1, 2, 3, 4]"
    using sort_allStepIndices[of exOriginal exReplay] by (simp add: ex_indices)
  have len: "length (steps exOriginal) = 3" "length (steps exReplay) = 3"
    by (simp_all add: exOriginal_def exReplay_def mkSession_def)
  from u m a3 a4 un len show ?thesis
    by (simp add: cmpStepIndex_compareAt)
qed


subsection \<open>Classification of an aligned pair\<close>

text \<open>
  What \<open>compareSteps\<close> does for the three variants its \<open>switch\<close> handles: a type
  mismatch gives the single type-changed description, and otherwise the list is empty
  exactly when the payloads are equal, with one description per field that differs.
\<close>

lemma compareSteps_type_changed:
  "type so \<noteq> type sr \<Longrightarrow>
   compareSteps so sr =
     [''Type changed from '' @ showType (type so) @ '' to '' @ showType (type sr)]"
  by (simp add: compareSteps_def)

lemma compareData_Nil_iff:
  "typeOfData d1 = typeOfData d2 \<Longrightarrow> typeOfData d1 \<noteq> assistant_response \<Longrightarrow>
   compareData d1 d2 = [] \<longleftrightarrow> d1 = d2"
  by (cases d1; cases d2) auto

lemma compareSteps_Nil_iff:
  "type so \<noteq> assistant_response \<Longrightarrow>
   compareSteps so sr = [] \<longleftrightarrow> type so = type sr \<and> data so = data sr"
  by (auto simp: compareSteps_def type_def compareData_Nil_iff)

lemma compareData_command_length:
  "length (compareData (CommandData c1 out1 err1 x1) (CommandData c2 out2 err2 x2)) =
     (if c1 \<noteq> c2 then 1 else 0) + (if out1 \<noteq> out2 then 1 else 0) +
     (if err1 \<noteq> err2 then 1 else 0) + (if x1 \<noteq> x2 then 1 else 0)"
  by simp

lemma compareSteps_assistant_response:
  "type so = assistant_response \<Longrightarrow> type sr = assistant_response \<Longrightarrow>
   compareSteps so sr = []"
  by (cases "data so"; cases "data sr") (auto simp: compareSteps_def type_def)

text \<open>
  Claim C1 says that an aligned pair is \<open>identical\<close> only if every payload field is equal,
  and \<open>modified\<close> with one description per mismatched field otherwise. Two assistant
  responses with different texts at the same step index are classified \<open>identical\<close>
  with no description: the \<open>switch\<close> of \<open>compareSteps\<close> has no case for
  \<open>'assistant_response'\<close>.
\<close>

theorem compareSessions_assistant_response:
  "stepComparisons (compareSessions exAnswerA exAnswerB) =
     [\<lparr>cmpStepIndex = 1,
       originalStep = Some (mkStep 1 1 (AssistantResponseData ''hello'')),
       replayStep = Some (mkStep 1 1 (AssistantResponseData ''goodbye'')),
       status = identical, differences = []\<rparr>]"
  by (simp add: stepComparisons_compareSessions allStepIndices_def compareAt_def
      compareSteps_def type_def exAnswerA_def exAnswerB_def mkSession_def mkStep_def Let_def)


section \<open>Properties of the branch constructor\<close>

subsection \<open>The replay loop\<close>

lemma replayLoop_acc:
  "replayLoop clk exec xs acc w =
     (acc @ fst (replayLoop clk exec xs [] w), snd (replayLoop clk exec xs [] w))"
proof (induction xs arbitrary: acc w)
  case Nil
  show ?case by simp
next
  case (Cons x xs)
  show ?case
  proof (cases "exec x w")
    case (Pair res w1)
    show ?thesis
    proof (cases res)
      case (Inl err)
      with Pair show ?thesis by simp
    next
      case (Inr r)
      obtain now w2 where c: "clk w1 = (now, w2)" by (cases "clk w1")
      let ?t = "r\<lparr>replayOf := Some (stepIndex x), timestamp := now\<rparr>"
      have "replayLoop clk exec (x # xs) acc w = replayLoop clk exec xs (acc @ [?t]) w2"
        using Pair Inr c by simp
      also have "\<dots> = ((acc @ [?t]) @ fst (replayLoop clk exec xs [] w2),
                        snd (replayLoop clk exec xs [] w2))"
        by (rule Cons.IH)
      finally have l: "replayLoop clk exec (x # xs) acc w =
          (acc @ ?t # fst (replayLoop clk exec xs [] w2), snd (replayLoop clk exec xs [] w2))"
        by simp
      have "replayLoop clk exec (x # xs) [] w = replayLoop clk exec xs ([] @ [?t]) w2"
        using Pair Inr c by simp
      also have "\<dots> = (([] @ [?t]) @ fst (replayLoop clk exec xs [] w2),
                        snd (replayLoop clk exec xs [] w2))"
        by (rule Cons.IH)
      finally have r: "replayLoop clk exec (x # xs) [] w =
          (?t # fst (replayLoop clk exec xs [] w2), snd (replayLoop clk exec xs [] w2))"
        by simp
      show ?thesis unfolding l r by simp
    qed
  qed
qed

lemma replayLoop_Cons_reject:
  "exec x w = (Inl err, w1) \<Longrightarrow> replayLoop clk exec (x # xs) [] w = ([], w1)"
  by simp

lemma replayLoop_Cons_resolve:
  assumes "exec x w = (Inr r, w1)" and "clk w1 = (now, w2)"
  shows "replayLoop clk exec (x # xs) [] w =
     (r\<lparr>replayOf := Some (stepIndex x), timestamp := now\<rparr> # fst (replayLoop clk exec xs [] w2),
      snd (replayLoop clk exec xs [] w2))"
proof -
  have "replayLoop clk exec (x # xs) [] w =
        replayLoop clk exec xs [r\<lparr>replayOf := Some (stepIndex x), timestamp := now\<rparr>] w2"
    using assms by simp
  then show ?thesis
    using replayLoop_acc[of clk exec xs "[r\<lparr>replayOf := Some (stepIndex x), timestamp := now\<rparr>]" w2]
    by simp
qed

lemma length_replayLoop_le:
  "length (fst (replayLoop clk exec xs [] w)) \<le> length xs"
proof (induction xs arbitrary: w)
  case Nil
  show ?case by simp
next
  case (Cons x xs)
  obtain res w1 where e: "exec x w = (res, w1)" by (cases "exec x w")
  show ?case
  proof (cases res)
    case (Inl err)
    with e show ?thesis by (simp add: replayLoop_Cons_reject)
  next
    case (Inr r)
    obtain now w2 where c: "clk w1 = (now, w2)" by (cases "clk w1")
    show ?thesis
      using Cons.IH[of w2] replayLoop_Cons_resolve[of exec x w r w1 clk now w2 xs] e Inr c
      by simp
  qed
qed

text \<open>Running the loop over \<open>xs @ ys\<close>: the second part is run only if nothing in the first was rejected.\<close>

lemma replayLoop_append:
  assumes "replayLoop clk exec xs [] w = (rs, w1)"
  shows "replayLoop clk exec (xs @ ys) [] w =
     (if length rs = length xs
      then (rs @ fst (replayLoop clk exec ys [] w1), snd (replayLoop clk exec ys [] w1))
      else (rs, w1))"
  using assms
proof (induction xs arbitrary: w rs)
  case Nil
  then show ?case by simp
next
  case (Cons x xs)
  obtain res wa where e: "exec x w = (res, wa)" by (cases "exec x w")
  show ?case
  proof (cases res)
    case (Inl err)
    with e Cons.prems show ?thesis by (auto simp: replayLoop_Cons_reject)
  next
    case (Inr r)
    obtain now wb where c: "clk wa = (now, wb)" by (cases "clk wa")
    let ?t = "r\<lparr>replayOf := Some (stepIndex x), timestamp := now\<rparr>"
    obtain rs' where rs': "replayLoop clk exec xs [] wb = (rs', w1)" and rs: "rs = ?t # rs'"
      using Cons.prems replayLoop_Cons_resolve[of exec x w r wa clk now wb xs] e Inr c
      by (cases "replayLoop clk exec xs [] wb") auto
    have "replayLoop clk exec ((x # xs) @ ys) [] w =
       (?t # fst (replayLoop clk exec (xs @ ys) [] wb), snd (replayLoop clk exec (xs @ ys) [] wb))"
      using replayLoop_Cons_resolve[of exec x w r wa clk now wb "xs @ ys"] e Inr c by simp
    then show ?thesis
      using Cons.IH[OF rs'] rs by simp
  qed
qed


subsection \<open>The two outcomes of \<open>createReplaySession\<close>\<close>

lemma createReplaySession_found:
  assumes "find (\<lambda>s. stepIndex s = i) (steps S) = Some fromStep"
    and "replayLoop clk exec (stepsToReplayInSameGroup S (group fromStep) i) [] w = (rs, w1)"
    and "clk w1 = (now1, w2)" and "clk w2 = (now2, w3)"
  shows "createReplaySession clk exec S i w =
     (Inr \<lparr>sessionId = generateReplaySessionId (sessionId S) now1,
           sessionTitle = ''Replay of '' @ sessionTitle S,
           createdAt = now2,
           steps = filter (\<lambda>s. group s \<le> group fromStep) (steps S) @ rs,
           sessionReplayOf = Some (sessionId S),
           replayFromStepIndex = Some i,
           isReplaySession = Some True\<rparr>, w3)"
  using assms by (simp add: createReplaySession_def unchangedSteps_def Let_def)

lemma createReplaySession_not_found:
  assumes "find (\<lambda>s. stepIndex s = i) (steps S) = None"
  shows "createReplaySession clk exec S i w =
     (Inl (Error (''Step '' @ showInt i @ '' not found in original session'')), w)"
  using assms by (simp add: createReplaySession_def)

lemma createReplaySession_found_Inr:
  assumes "find (\<lambda>s. stepIndex s = i) (steps S) = Some fromStep"
  shows "\<exists>R w'. createReplaySession clk exec S i w = (Inr R, w') \<and>
           steps R = filter (\<lambda>s. group s \<le> group fromStep) (steps S) @
                     fst (replayLoop clk exec (stepsToReplayInSameGroup S (group fromStep) i) [] w) \<and>
           sessionReplayOf R = Some (sessionId S) \<and>
           replayFromStepIndex R = Some i \<and> isReplaySession R = Some True"
proof -
  obtain rs w1 where l: "replayLoop clk exec (stepsToReplayInSameGroup S (group fromStep) i) [] w = (rs, w1)"
    by (cases "replayLoop clk exec (stepsToReplayInSameGroup S (group fromStep) i) [] w")
  obtain now1 w2 where c1: "clk w1 = (now1, w2)" by (cases "clk w1")
  obtain now2 w3 where c2: "clk w2 = (now2, w3)" by (cases "clk w2")
  show ?thesis
    using createReplaySession_found[OF assms l c1 c2] l by simp
qed

text \<open>
  Claim C7. \<open>createReplaySession\<close> fails exactly when no step of the original session
  has the cut index. It then raises the step-not-found error and leaves the world as it
  was, whatever the executor and the clock are: neither has been used, and no other index
  is tried.
\<close>

theorem createReplaySession_StepNotFound:
  "(isl (fst (createReplaySession clk exec S i w)) \<longleftrightarrow> i \<notin> stepIndex ` set (steps S)) \<and>
   (i \<notin> stepIndex ` set (steps S) \<longrightarrow>
      createReplaySession clk exec S i w =
        (Inl (Error (''Step '' @ showInt i @ '' not found in original session'')), w))"
proof (cases "find (\<lambda>s. stepIndex s = i) (steps S)")
  case None
  then have "i \<notin> stepIndex ` set (steps S)" by (simp add: find_stepIndex_None)
  then show ?thesis using createReplaySession_not_found[OF None, of clk exec w] by simp
next
  case (Some fromStep)
  then have "\<not> i \<notin> stepIndex ` set (steps S)"
    using find_stepIndex_None[of i "steps S"] by simp
  moreover have "\<not> isl (fst (createReplaySession clk exec S i w))"
    using createReplaySession_found_Inr[OF Some, of clk exec w] by auto
  ultimately show ?thesis by simp
qed

lemma exBranch_steps:
  "steps exBranch =
     [mkStep 1 1 (PromptData ''start'' None),
      mkStep 2 1 (AssistantResponseData ''ok''),
      mkStep 3 2 (PromptData ''more'' None),
      mkStep 4 2 (CommandData ''ls'' ''a'' [] 0),
      mkStep 5 2 (FileEditData ''a.ts'' update ''y''),
      mkStep 6 2 (AssistantResponseData ''summary''),
      mkStep 7 3 (PromptData ''later'' None)]"
  by (simp add: exBranch_def mkSession_def)

lemma mkStep_sel [simp]:
  "stepIndex (mkStep i g d) = i" "group (mkStep i g d) = g" "data (mkStep i g d) = d"
  by (simp_all add: mkStep_def)

lemma exBranch_find_3:
  "find (\<lambda>s. stepIndex s = 3) (steps exBranch) = Some (mkStep 3 2 (PromptData ''more'' None))"
  by (simp add: exBranch_steps)

lemma exBranch_tail:
  "stepsToReplayInSameGroup exBranch 2 3 =
     [mkStep 4 2 (CommandData ''ls'' ''a'' [] 0),
      mkStep 5 2 (FileEditData ''a.ts'' update ''y''),
      mkStep 6 2 (AssistantResponseData ''summary'')]"
  by (simp add: stepsToReplayInSameGroup_def exBranch_steps)

lemma exBranch_prefix:
  "filter (\<lambda>s. group s \<le> 2) (steps exBranch) =
     [mkStep 1 1 (PromptData ''start'' None),
      mkStep 2 1 (AssistantResponseData ''ok''),
      mkStep 3 2 (PromptData ''more'' None),
      mkStep 4 2 (CommandData ''ls'' ''a'' [] 0),
      mkStep 5 2 (FileEditData ''a.ts'' update ''y''),
      mkStep 6 2 (AssistantResponseData ''summary'')]"
  by (simp add: exBranch_steps)

text \<open>C7 on the example session: index 9 is absent, index 3 is present.\<close>

theorem createReplaySession_StepNotFound_witness:
  "9 \<notin> stepIndex ` set (steps exBranch) \<and>
   isl (fst (createReplaySession exClock exExecOk exBranch 9 0)) \<and>
   createReplaySession exClock exExecOk exBranch 9 0 =
     (Inl (Error ''Step 9 not found in original session''), 0) \<and>
   3 \<in> stepIndex ` set (steps exBranch) \<and>
   \<not> isl (fst (createReplaySession exClock exExecOk exBranch 3 0))"
proof -
  have n9: "9 \<notin> stepIndex ` set (steps exBranch)" and i3: "3 \<in> stepIndex ` set (steps exBranch)"
    by (simp_all add: exBranch_steps)
  have sh: "showInt 9 = ''9''" by (simp add: showInt_def)
  from createReplaySession_StepNotFound[of exClock exExecOk exBranch 9 0]
    createReplaySession_StepNotFound[of exClock exExecOk exBranch 3 0] n9 i3 sh
  show ?thesis by simp
qed


subsection \<open>The calls of the executor, one after the other\<close>

text \<open>
  What the loop does, stated without the loop. \<open>ws\<close> lists the worlds in which the
  executor is called: the first call is made in the initial world, and call \<open>k + 1\<close> in
  the world left by the clock reading that followed the answer to call \<open>k\<close>. The \<open>k\<close>-th
  step returned is the answer to call \<open>k\<close> with \<open>replayOf\<close> and that clock reading. The
  loop ends in the last of these worlds when every call resolved, and otherwise in the
  world left by the first rejected call, with no call after it.
\<close>

lemma replayLoop_sequence:
  assumes "replayLoop clk exec xs [] w = (rs, w')"
  shows "\<exists>ws. length ws = Suc (length rs) \<and> ws ! 0 = w \<and> length rs \<le> length xs \<and>
           (\<forall>k < length rs. \<exists>out w1 now.
              exec (xs ! k) (ws ! k) = (Inr out, w1) \<and> clk w1 = (now, ws ! Suc k) \<and>
              rs ! k = out\<lparr>replayOf := Some (stepIndex (xs ! k)), timestamp := now\<rparr>) \<and>
           (if length rs = length xs then w' = ws ! length rs
            else \<exists>err. exec (xs ! length rs) (ws ! length rs) = (Inl err, w'))"
  using assms
proof (induction xs arbitrary: w rs)
  case Nil
  then have "rs = []" "w' = w" by simp_all
  then show ?case by (intro exI[of _ "[w]"]) simp
next
  case (Cons x xs)
  obtain res wa where e: "exec x w = (res, wa)" by (cases "exec x w")
  show ?case
  proof (cases res)
    case (Inl err)
    with e Cons.prems have "rs = []" "w' = wa" by (simp_all add: replayLoop_Cons_reject)
    with e Inl show ?thesis by (intro exI[of _ "[w]"]) auto
  next
    case (Inr r)
    obtain now wb where c: "clk wa = (now, wb)" by (cases "clk wa")
    let ?t = "r\<lparr>replayOf := Some (stepIndex x), timestamp := now\<rparr>"
    obtain rs' where rs': "replayLoop clk exec xs [] wb = (rs', w')" and rs: "rs = ?t # rs'"
      using Cons.prems replayLoop_Cons_resolve[of exec x w r wa clk now wb xs] e Inr c
      by (cases "replayLoop clk exec xs [] wb") auto
    from Cons.IH[OF rs'] obtain ws where
      len: "length ws = Suc (length rs')" and w0: "ws ! 0 = wb" and le: "length rs' \<le> length xs" and
      each: "\<forall>k < length rs'. \<exists>out w1 now.
              exec (xs ! k) (ws ! k) = (Inr out, w1) \<and> clk w1 = (now, ws ! Suc k) \<and>
              rs' ! k = out\<lparr>replayOf := Some (stepIndex (xs ! k)), timestamp := now\<rparr>" and
      fin: "if length rs' = length xs then w' = ws ! length rs'
            else \<exists>err. exec (xs ! length rs') (ws ! length rs') = (Inl err, w')"
      by blast
    have each': "\<exists>out w1 now.
              exec ((x # xs) ! k) ((w # ws) ! k) = (Inr out, w1) \<and>
              clk w1 = (now, (w # ws) ! Suc k) \<and>
              rs ! k = out\<lparr>replayOf := Some (stepIndex ((x # xs) ! k)), timestamp := now\<rparr>"
      if k: "k < length rs" for k
    proof (cases k)
      case 0
      then show ?thesis using e Inr c w0 rs by simp
    next
      case (Suc j)
      then have "j < length rs'" using k rs by simp
      with each show ?thesis unfolding Suc rs by simp
    qed
    have fin': "if length rs = length (x # xs) then w' = (w # ws) ! length rs
            else \<exists>err. exec ((x # xs) ! length rs) ((w # ws) ! length rs) = (Inl err, w')"
      using fin rs by simp
    show ?thesis
      using len le each' fin' rs
      by (intro exI[of _ "w # ws"]) simp
  qed
qed

text \<open>
  Conversely, a chain of resolved calls determines what the loop returns: the loop over
  \<open>xs\<close> returns the tagged answers and ends in the world after the last clock reading.
\<close>

lemma replayLoop_of_sequence:
  assumes "length ws = Suc (length xs)" and "length rs = length xs" and "ws ! 0 = w"
    and "\<forall>k < length xs. \<exists>out w1 now.
           exec (xs ! k) (ws ! k) = (Inr out, w1) \<and> clk w1 = (now, ws ! Suc k) \<and>
           rs ! k = out\<lparr>replayOf := Some (stepIndex (xs ! k)), timestamp := now\<rparr>"
  shows "replayLoop clk exec xs [] w = (rs, ws ! length xs)"
  using assms
proof (induction xs arbitrary: w ws rs)
  case Nil
  then show ?case by simp
next
  case (Cons x xs)
  from Cons.prems(1) obtain w0 ws' where ws: "ws = w0 # ws'" and lws: "length ws' = Suc (length xs)"
    by (cases ws) auto
  from Cons.prems(2) obtain r0 rs' where rs: "rs = r0 # rs'" and lrs: "length rs' = length xs"
    by (cases rs) auto
  have w0: "w0 = w" using Cons.prems(3) ws by simp
  from Cons.prems(4) have "\<exists>out w1 now.
           exec ((x # xs) ! 0) (ws ! 0) = (Inr out, w1) \<and> clk w1 = (now, ws ! Suc 0) \<and>
           rs ! 0 = out\<lparr>replayOf := Some (stepIndex ((x # xs) ! 0)), timestamp := now\<rparr>"
    by blast
  then obtain out w1 now where e: "exec x w = (Inr out, w1)" and c: "clk w1 = (now, ws' ! 0)"
    and r0: "r0 = out\<lparr>replayOf := Some (stepIndex x), timestamp := now\<rparr>"
    using ws rs w0 by auto
  have rest: "\<forall>k < length xs. \<exists>out w1 now.
           exec (xs ! k) (ws' ! k) = (Inr out, w1) \<and> clk w1 = (now, ws' ! Suc k) \<and>
           rs' ! k = out\<lparr>replayOf := Some (stepIndex (xs ! k)), timestamp := now\<rparr>"
  proof (intro allI impI)
    fix k assume "k < length xs"
    then have "Suc k < length (x # xs)" by simp
    with Cons.prems(4) have "\<exists>out w1 now.
           exec ((x # xs) ! Suc k) (ws ! Suc k) = (Inr out, w1) \<and> clk w1 = (now, ws ! Suc (Suc k)) \<and>
           rs ! Suc k = out\<lparr>replayOf := Some (stepIndex ((x # xs) ! Suc k)), timestamp := now\<rparr>"
      by blast
    then show "\<exists>out w1 now.
           exec (xs ! k) (ws' ! k) = (Inr out, w1) \<and> clk w1 = (now, ws' ! Suc k) \<and>
           rs' ! k = out\<lparr>replayOf := Some (stepIndex (xs ! k)), timestamp := now\<rparr>"
      using ws rs by simp
  qed
  have "replayLoop clk exec xs [] (ws' ! 0) = (rs', ws' ! length xs)"
    by (rule Cons.IH[OF lws lrs refl rest])
  then show ?case
    using replayLoop_Cons_resolve[of exec x w out w1 clk now "ws' ! 0" xs] e c r0 rs ws by simp
qed

lemma createReplaySession_run:
  assumes found: "find (\<lambda>s. stepIndex s = i) (steps S) = Some fromStep"
  shows "\<exists>replayed ws wl now1 w3 now2 w'.
           createReplaySession clk exec S i w =
             (Inr \<lparr>sessionId = generateReplaySessionId (sessionId S) now1,
                   sessionTitle = ''Replay of '' @ sessionTitle S,
                   createdAt = now2,
                   steps = filter (\<lambda>s. group s \<le> group fromStep) (steps S) @ replayed,
                   sessionReplayOf = Some (sessionId S),
                   replayFromStepIndex = Some i,
                   isReplaySession = Some True\<rparr>, w') \<and>
           length ws = Suc (length replayed) \<and> ws ! 0 = w \<and>
           length replayed \<le> length (stepsToReplayInSameGroup S (group fromStep) i) \<and>
           (\<forall>k < length replayed. \<exists>out w1 now.
              exec (stepsToReplayInSameGroup S (group fromStep) i ! k) (ws ! k) = (Inr out, w1) \<and>
              clk w1 = (now, ws ! Suc k) \<and>
              replayed ! k =
                out\<lparr>replayOf := Some (stepIndex (stepsToReplayInSameGroup S (group fromStep) i ! k)),
                    timestamp := now\<rparr>) \<and>
           (if length replayed = length (stepsToReplayInSameGroup S (group fromStep) i)
            then wl = ws ! length replayed
            else \<exists>err. exec (stepsToReplayInSameGroup S (group fromStep) i ! length replayed)
                          (ws ! length replayed) = (Inl err, wl)) \<and>
           clk wl = (now1, w3) \<and> clk w3 = (now2, w')"
proof -
  let ?tail = "stepsToReplayInSameGroup S (group fromStep) i"
  obtain rs wl where l: "replayLoop clk exec ?tail [] w = (rs, wl)"
    by (cases "replayLoop clk exec ?tail [] w")
  obtain now1 w3 where c1: "clk wl = (now1, w3)" by (cases "clk wl")
  obtain now2 w' where c2: "clk w3 = (now2, w')" by (cases "clk w3")
  from replayLoop_sequence[OF l] obtain ws where
    sq: "length ws = Suc (length rs)" "ws ! 0 = w" "length rs \<le> length ?tail"
      "\<forall>k < length rs. \<exists>out w1 now.
              exec (?tail ! k) (ws ! k) = (Inr out, w1) \<and> clk w1 = (now, ws ! Suc k) \<and>
              rs ! k = out\<lparr>replayOf := Some (stepIndex (?tail ! k)), timestamp := now\<rparr>"
      "if length rs = length ?tail then wl = ws ! length rs
            else \<exists>err. exec (?tail ! length rs) (ws ! length rs) = (Inl err, wl)"
    by blast
  note res = createReplaySession_found[OF found l c1 c2]
  show ?thesis
    apply (rule exI[of _ rs], rule exI[of _ ws], rule exI[of _ wl], rule exI[of _ now1])
    apply (rule exI[of _ w3], rule exI[of _ now2], rule exI[of _ w'])
    using res sq c1 c2 by (intro conjI) assumption+
qed



lemma set_stepsToReplayInSameGroup:
  "set (stepsToReplayInSameGroup S g i) = {s \<in> set (steps S). group s = g \<and> i < stepIndex s}"
  by (auto simp: stepsToReplayInSameGroup_def)

lemma exClock_simps:
  "exClock 0 = (''10:00:00.5Z'', 1)" "exClock 1 = (''10:00:01.5Z'', 2)"
  "exClock 2 = (''10:00:02.5Z'', 3)" "exClock 3 = (''10:00:03.5Z'', 4)"
  "exClock 4 = (''10:00:04.5Z'', 5)" "exClock 5 = (''10:00:05.5Z'', 6)"
  "exClock 6 = (''10:00:06.5Z'', 7)" "exClock 7 = (''10:00:07.5Z'', 8)"
  by (simp_all add: exClock_def showInt_def)

lemma exBranch_meta: "sessionTitle exBranch = ''Demo''" "sessionId exBranch = ''s5''"
  by (simp_all add: exBranch_def mkSession_def)

subsection \<open>Partial failure\<close>

text \<open>
  Claim C3. Let the steps to replay be \<open>ok @ failing # rest\<close>. Suppose the executor
  resolves the steps of \<open>ok\<close> one after the other (call \<open>k\<close> is made in the world
  \<open>ws ! k\<close>, the first one in the initial world, and \<open>ws ! Suc k\<close> is the world left by
  the clock reading after the answer to call \<open>k\<close>), let \<open>rs ! k\<close> be the answer to call
  \<open>k\<close> with \<open>replayOf\<close> and that clock reading, and suppose the executor rejects
  \<open>failing\<close> in the world reached after them. Then \<open>createReplaySession\<close> still returns a
  session: its steps are the copied prefix followed by \<open>rs\<close>, the answers already given,
  it carries the replay metadata, and neither \<open>failing\<close> nor any step of \<open>rest\<close>
  contributes a step. The world it returns is the one left by the rejected call followed by
  the two clock readings for the session id and \<open>createdAt\<close>: the executor is not called on
  \<open>rest\<close>.
\<close>

theorem createReplaySession_partial_failure:
  assumes found: "find (\<lambda>s. stepIndex s = i) (steps S) = Some fromStep"
    and tail: "stepsToReplayInSameGroup S (group fromStep) i = ok @ failing # rest"
    and worlds: "length ws = Suc (length ok)" "ws ! 0 = w"
    and kept: "length rs = length ok"
    and resolved: "\<forall>k < length ok. \<exists>out w1 now.
           exec (ok ! k) (ws ! k) = (Inr out, w1) \<and> clk w1 = (now, ws ! Suc k) \<and>
           rs ! k = out\<lparr>replayOf := Some (stepIndex (ok ! k)), timestamp := now\<rparr>"
    and rejected: "exec failing (ws ! length ok) = (Inl err, w2)"
    and clock1: "clk w2 = (now1, w3)"
    and clock2: "clk w3 = (now2, w4)"
  shows "createReplaySession clk exec S i w =
     (Inr \<lparr>sessionId = generateReplaySessionId (sessionId S) now1,
           sessionTitle = ''Replay of '' @ sessionTitle S,
           createdAt = now2,
           steps = filter (\<lambda>s. group s \<le> group fromStep) (steps S) @ rs,
           sessionReplayOf = Some (sessionId S),
           replayFromStepIndex = Some i,
           isReplaySession = Some True\<rparr>, w4)"
proof -
  have ok: "replayLoop clk exec ok [] w = (rs, ws ! length ok)"
    by (rule replayLoop_of_sequence[OF worlds(1) kept worlds(2) resolved])
  have "replayLoop clk exec (failing # rest) [] (ws ! length ok) = ([], w2)"
    using rejected by (rule replayLoop_Cons_reject)
  then have "replayLoop clk exec (ok @ failing # rest) [] w = (rs, w2)"
    using replayLoop_append[OF ok, of "failing # rest"] kept by simp
  then have "replayLoop clk exec (stepsToReplayInSameGroup S (group fromStep) i) [] w = (rs, w2)"
    by (simp add: tail)
  from createReplaySession_found[OF found this clock1 clock2] show ?thesis .
qed

text \<open>
  C3 on the example session cut at step 3, with an executor that rejects step 5: the
  answer to step 4, retitled by the executor, is kept; steps 5 and 6 are not replayed.
\<close>

theorem createReplaySession_partial_failure_witness:
  "find (\<lambda>s. stepIndex s = 3) (steps exBranch) = Some (mkStep 3 2 (PromptData ''more'' None)) \<and>
   stepsToReplayInSameGroup exBranch 2 3 =
     [mkStep 4 2 (CommandData ''ls'' ''a'' [] 0)] @
     mkStep 5 2 (FileEditData ''a.ts'' update ''y'') # [mkStep 6 2 (AssistantResponseData ''summary'')] \<and>
   exExecFailAt 5 (mkStep 4 2 (CommandData ''ls'' ''a'' [] 0)) 0 =
     (Inr ((mkStep 4 2 (CommandData ''ls'' ''a'' [] 0))\<lparr>title := Some ''call 0''\<rparr>), 1) \<and>
   exClock 1 = (''10:00:01.5Z'', 2) \<and>
   exExecFailAt 5 (mkStep 5 2 (FileEditData ''a.ts'' update ''y'')) 2 = (Inl ''boom'', 3) \<and>
   createReplaySession exClock (exExecFailAt 5) exBranch 3 0 =
     (Inr \<lparr>sessionId = ''s5-replay-1000035Z'',
           sessionTitle = ''Replay of Demo'',
           createdAt = ''10:00:04.5Z'',
           steps =
             [mkStep 1 1 (PromptData ''start'' None),
              mkStep 2 1 (AssistantResponseData ''ok''),
              mkStep 3 2 (PromptData ''more'' None),
              mkStep 4 2 (CommandData ''ls'' ''a'' [] 0),
              mkStep 5 2 (FileEditData ''a.ts'' update ''y''),
              mkStep 6 2 (AssistantResponseData ''summary''),
              (mkStep 4 2 (CommandData ''ls'' ''a'' [] 0))
                \<lparr>title := Some ''call 0'', replayOf := Some 4, timestamp := ''10:00:01.5Z''\<rparr>],
           sessionReplayOf = Some ''s5'',
           replayFromStepIndex = Some 3,
           isReplaySession = Some True\<rparr>, 5)"
proof -
  let ?s3 = "mkStep 3 2 (PromptData ''more'' None)"
  let ?s4 = "mkStep 4 2 (CommandData ''ls'' ''a'' [] 0)"
  let ?s5 = "mkStep 5 2 (FileEditData ''a.ts'' update ''y'')"
  let ?s6 = "mkStep 6 2 (AssistantResponseData ''summary'')"
  let ?r4 = "?s4\<lparr>title := Some ''call 0'', replayOf := Some 4, timestamp := ''10:00:01.5Z''\<rparr>"
  have found: "find (\<lambda>s. stepIndex s = 3) (steps exBranch) = Some ?s3"
    by (rule exBranch_find_3)
  have tail: "stepsToReplayInSameGroup exBranch (group ?s3) 3 = [?s4] @ ?s5 # [?s6]"
    by (simp add: exBranch_tail)
  have call4: "exExecFailAt 5 ?s4 0 = (Inr (?s4\<lparr>title := Some ''call 0''\<rparr>), 1)"
    by (simp add: exExecFailAt_def exExecStamp_def showInt_def)
  have worlds: "length [0, 2 :: int] = Suc (length [?s4])" "[0, 2 :: int] ! 0 = 0"
    by simp_all
  have kept: "length [?r4] = length [?s4]" by simp
  have resolved: "\<forall>k < length [?s4]. \<exists>out w1 now.
           exExecFailAt 5 ([?s4] ! k) ([0, 2] ! k) = (Inr out, w1) \<and>
           exClock w1 = (now, [0, 2] ! Suc k) \<and>
           [?r4] ! k = out\<lparr>replayOf := Some (stepIndex ([?s4] ! k)), timestamp := now\<rparr>"
    using call4 exClock_simps(2) by simp
  have rejected: "exExecFailAt 5 ?s5 ([0, 2] ! length [?s4]) = (Inl ''boom'', 3)"
    by (simp add: exExecFailAt_def)
  have rejected': "exExecFailAt 5 ?s5 2 = (Inl ''boom'', 3)"
    by (simp add: exExecFailAt_def)
  have clock1: "exClock 3 = (''10:00:03.5Z'', 4)" and clock2: "exClock 4 = (''10:00:04.5Z'', 5)"
    by (simp_all add: exClock_simps)
  have sid: "generateReplaySessionId (sessionId exBranch) ''10:00:03.5Z'' = ''s5-replay-1000035Z''"
    by (simp add: generateReplaySessionId_def exBranch_def mkSession_def)
  from createReplaySession_partial_failure[OF found tail worlds kept resolved rejected clock1 clock2]
  show ?thesis
    using found tail call4 exClock_simps(2) rejected' sid exBranch_meta exBranch_prefix by simp
qed

subsection \<open>The replayed tail\<close>




subsection \<open>What the caller sees of a rejection\<close>

text \<open>
  Claim C8 says that a rejection of the executor reaches the caller as an error carrying
  the index of the offending step. On the example session cut at step 3, with an executor
  that rejects step 4, the call returns a session (the copied prefix alone) and no error.
\<close>

theorem createReplaySession_rejection_counterexample:
  "exExecFailAt 4 (mkStep 4 2 (CommandData ''ls'' ''a'' [] 0)) 0 = (Inl ''boom'', 1) \<and>
   createReplaySession exClock (exExecFailAt 4) exBranch 3 0 =
     (Inr \<lparr>sessionId = ''s5-replay-1000015Z'',
           sessionTitle = ''Replay of Demo'',
           createdAt = ''10:00:02.5Z'',
           steps =
             [mkStep 1 1 (PromptData ''start'' None),
              mkStep 2 1 (AssistantResponseData ''ok''),
              mkStep 3 2 (PromptData ''more'' None),
              mkStep 4 2 (CommandData ''ls'' ''a'' [] 0),
              mkStep 5 2 (FileEditData ''a.ts'' update ''y''),
              mkStep 6 2 (AssistantResponseData ''summary'')],
           sessionReplayOf = Some ''s5'',
           replayFromStepIndex = Some 3,
           isReplaySession = Some True\<rparr>, 3)"
proof -
  have l: "replayLoop exClock (exExecFailAt 4)
             (stepsToReplayInSameGroup exBranch (group (mkStep 3 2 (PromptData ''more'' None))) 3) [] 0 =
           ([], 1)"
    by (simp add: exBranch_tail exExecFailAt_def)
  have sid: "generateReplaySessionId ''s5'' ''10:00:01.5Z'' = ''s5-replay-1000015Z''"
    by (simp add: generateReplaySessionId_def)
  have "exExecFailAt 4 (mkStep 4 2 (CommandData ''ls'' ''a'' [] 0)) 0 = (Inl ''boom'', 1)"
    by (simp add: exExecFailAt_def)
  then show ?thesis
    using createReplaySession_found[OF exBranch_find_3 l exClock_simps(2) exClock_simps(3)]
    by (simp add: exBranch_meta exBranch_prefix sid)
qed

text \<open>
  Claim C8 as amended: when the cut index exists and the executor rejects some step \<open>s\<close>
  to replay (in whatever world it is called), the rejection does not reach the caller.
  \<open>createReplaySession\<close> returns a session with its replay metadata whose steps are the
  copied prefix followed by the answers to the calls made before the first rejected one,
  each with \<open>replayOf\<close> and its clock reading; the reason \<open>err\<close> of the rejection is not
  part of the result; and the world returned is the one left by the rejected call followed
  by the two clock readings for the session id and \<open>createdAt\<close>, so no step after the
  rejected one is passed to the executor.
\<close>

theorem createReplaySession_rejection_caught:
  assumes found: "find (\<lambda>s. stepIndex s = i) (steps S) = Some fromStep"
    and tail_step: "s \<in> set (stepsToReplayInSameGroup S (group fromStep) i)"
    and rejects: "\<forall>w0. \<exists>err w2. exec s w0 = (Inl err, w2)"
  shows "\<exists>replayed ws err wl now1 w3 now2 w'.
           createReplaySession clk exec S i w =
             (Inr \<lparr>sessionId = generateReplaySessionId (sessionId S) now1,
                   sessionTitle = ''Replay of '' @ sessionTitle S,
                   createdAt = now2,
                   steps = filter (\<lambda>s. group s \<le> group fromStep) (steps S) @ replayed,
                   sessionReplayOf = Some (sessionId S),
                   replayFromStepIndex = Some i,
                   isReplaySession = Some True\<rparr>, w') \<and>
           length replayed < length (stepsToReplayInSameGroup S (group fromStep) i) \<and>
           length ws = Suc (length replayed) \<and> ws ! 0 = w \<and>
           (\<forall>k < length replayed. \<exists>out w1 now.
              exec (stepsToReplayInSameGroup S (group fromStep) i ! k) (ws ! k) = (Inr out, w1) \<and>
              clk w1 = (now, ws ! Suc k) \<and>
              replayed ! k =
                out\<lparr>replayOf := Some (stepIndex (stepsToReplayInSameGroup S (group fromStep) i ! k)),
                    timestamp := now\<rparr>) \<and>
           exec (stepsToReplayInSameGroup S (group fromStep) i ! length replayed)
                (ws ! length replayed) = (Inl err, wl) \<and>
           clk wl = (now1, w3) \<and> clk w3 = (now2, w')"
proof -
  let ?tail = "stepsToReplayInSameGroup S (group fromStep) i"
  from createReplaySession_run[OF found, of clk exec w]
  obtain replayed ws wl now1 w3 now2 w' where
    res: "createReplaySession clk exec S i w =
             (Inr \<lparr>sessionId = generateReplaySessionId (sessionId S) now1,
                   sessionTitle = ''Replay of '' @ sessionTitle S,
                   createdAt = now2,
                   steps = filter (\<lambda>s. group s \<le> group fromStep) (steps S) @ replayed,
                   sessionReplayOf = Some (sessionId S),
                   replayFromStepIndex = Some i,
                   isReplaySession = Some True\<rparr>, w')" and
    ws: "length ws = Suc (length replayed)" "ws ! 0 = w" and
    le: "length replayed \<le> length ?tail" and
    each: "\<forall>k < length replayed. \<exists>out w1 now.
              exec (?tail ! k) (ws ! k) = (Inr out, w1) \<and> clk w1 = (now, ws ! Suc k) \<and>
              replayed ! k = out\<lparr>replayOf := Some (stepIndex (?tail ! k)), timestamp := now\<rparr>" and
    fin: "if length replayed = length ?tail then wl = ws ! length replayed
          else \<exists>err. exec (?tail ! length replayed) (ws ! length replayed) = (Inl err, wl)" and
    c: "clk wl = (now1, w3)" "clk w3 = (now2, w')"
    by blast
  from tail_step obtain j where j: "j < length ?tail" "?tail ! j = s"
    by (auto simp: in_set_conv_nth)
  have lt: "length replayed < length ?tail"
  proof (rule ccontr)
    assume "\<not> length replayed < length ?tail"
    then have "j < length replayed" using j(1) le by simp
    with each obtain out w1 where "exec (?tail ! j) (ws ! j) = (Inr out, w1)" by blast
    moreover from rejects obtain err w2 where "exec s (ws ! j) = (Inl err, w2)" by blast
    ultimately show False using j(2) by simp
  qed
  with fin obtain err where
    rej: "exec (?tail ! length replayed) (ws ! length replayed) = (Inl err, wl)"
    by auto
  show ?thesis
    apply (rule exI[of _ replayed], rule exI[of _ ws], rule exI[of _ err], rule exI[of _ wl])
    apply (rule exI[of _ now1], rule exI[of _ w3], rule exI[of _ now2], rule exI[of _ w'])
    using res lt ws each rej c by (intro conjI) assumption+
qed

text \<open>
  The amended C8 with an executor that rejects step 6 of the example session: the answers
  to steps 4 and 5 are in the session that is returned.
\<close>

theorem createReplaySession_rejection_caught_witness:
  "find (\<lambda>s. stepIndex s = 3) (steps exBranch) = Some (mkStep 3 2 (PromptData ''more'' None)) \<and>
   mkStep 6 2 (AssistantResponseData ''summary'') \<in> set (stepsToReplayInSameGroup exBranch 2 3) \<and>
   (\<forall>w0. \<exists>err w2.
      exExecFailAt 6 (mkStep 6 2 (AssistantResponseData ''summary'')) w0 = (Inl err, w2)) \<and>
   createReplaySession exClock (exExecFailAt 6) exBranch 3 0 =
     (Inr \<lparr>sessionId = ''s5-replay-1000055Z'',
           sessionTitle = ''Replay of Demo'',
           createdAt = ''10:00:06.5Z'',
           steps =
             [mkStep 1 1 (PromptData ''start'' None),
              mkStep 2 1 (AssistantResponseData ''ok''),
              mkStep 3 2 (PromptData ''more'' None),
              mkStep 4 2 (CommandData ''ls'' ''a'' [] 0),
              mkStep 5 2 (FileEditData ''a.ts'' update ''y''),
              mkStep 6 2 (AssistantResponseData ''summary''),
              (mkStep 4 2 (CommandData ''ls'' ''a'' [] 0))
                \<lparr>title := Some ''call 0'', replayOf := Some 4, timestamp := ''10:00:01.5Z''\<rparr>,
              (mkStep 5 2 (FileEditData ''a.ts'' update ''y''))
                \<lparr>title := Some ''call 2'', replayOf := Some 5, timestamp := ''10:00:03.5Z''\<rparr>],
           sessionReplayOf = Some ''s5'',
           replayFromStepIndex = Some 3,
           isReplaySession = Some True\<rparr>, 7) \<and>
   (\<exists>replayed ws err wl now1 w3 now2 w'.
      createReplaySession exClock (exExecFailAt 6) exBranch 3 0 =
        (Inr \<lparr>sessionId = generateReplaySessionId ''s5'' now1,
              sessionTitle = ''Replay of Demo'',
              createdAt = now2,
              steps = filter (\<lambda>s. group s \<le> 2) (steps exBranch) @ replayed,
              sessionReplayOf = Some ''s5'',
              replayFromStepIndex = Some 3,
              isReplaySession = Some True\<rparr>, w') \<and>
      length replayed < 3 \<and> length ws = Suc (length replayed) \<and> ws ! 0 = 0 \<and>
      exExecFailAt 6 (stepsToReplayInSameGroup exBranch 2 3 ! length replayed)
        (ws ! length replayed) = (Inl err, wl) \<and>
      exClock wl = (now1, w3) \<and> exClock w3 = (now2, w'))"
proof -
  let ?s6 = "mkStep 6 2 (AssistantResponseData ''summary'')"
  let ?g = "group (mkStep 3 2 (PromptData ''more'' None))"
  have g: "?g = 2" by simp
  have mem: "?s6 \<in> set (stepsToReplayInSameGroup exBranch ?g 3)"
    by (simp add: exBranch_tail)
  have mem2: "?s6 \<in> set (stepsToReplayInSameGroup exBranch 2 3)"
    by (simp add: exBranch_tail)
  have rej: "\<forall>w0. \<exists>err w2. exExecFailAt 6 ?s6 w0 = (Inl err, w2)"
    by (simp add: exExecFailAt_def)
  have run: "replayLoop exClock (exExecFailAt 6) (stepsToReplayInSameGroup exBranch ?g 3) [] 0 =
     ([(mkStep 4 2 (CommandData ''ls'' ''a'' [] 0))
         \<lparr>title := Some ''call 0'', replayOf := Some 4, timestamp := ''10:00:01.5Z''\<rparr>,
       (mkStep 5 2 (FileEditData ''a.ts'' update ''y''))
         \<lparr>title := Some ''call 2'', replayOf := Some 5, timestamp := ''10:00:03.5Z''\<rparr>], 5)"
    by (simp add: exBranch_tail exExecFailAt_def exExecStamp_def exClock_simps showInt_def)
  have sid: "generateReplaySessionId ''s5'' ''10:00:05.5Z'' = ''s5-replay-1000055Z''"
    by (simp add: generateReplaySessionId_def)
  have concrete: "createReplaySession exClock (exExecFailAt 6) exBranch 3 0 =
     (Inr \<lparr>sessionId = ''s5-replay-1000055Z'',
           sessionTitle = ''Replay of Demo'',
           createdAt = ''10:00:06.5Z'',
           steps =
             [mkStep 1 1 (PromptData ''start'' None),
              mkStep 2 1 (AssistantResponseData ''ok''),
              mkStep 3 2 (PromptData ''more'' None),
              mkStep 4 2 (CommandData ''ls'' ''a'' [] 0),
              mkStep 5 2 (FileEditData ''a.ts'' update ''y''),
              mkStep 6 2 (AssistantResponseData ''summary''),
              (mkStep 4 2 (CommandData ''ls'' ''a'' [] 0))
                \<lparr>title := Some ''call 0'', replayOf := Some 4, timestamp := ''10:00:01.5Z''\<rparr>,
              (mkStep 5 2 (FileEditData ''a.ts'' update ''y''))
                \<lparr>title := Some ''call 2'', replayOf := Some 5, timestamp := ''10:00:03.5Z''\<rparr>],
           sessionReplayOf = Some ''s5'',
           replayFromStepIndex = Some 3,
           isReplaySession = Some True\<rparr>, 7)"
    using createReplaySession_found[OF exBranch_find_3 run exClock_simps(6) exClock_simps(7)]
    by (simp add: exBranch_meta exBranch_prefix sid)
  from createReplaySession_rejection_caught[where exec = "exExecFailAt 6" and s = ?s6
      and clk = exClock and w = 0, OF exBranch_find_3 mem rej]
  obtain replayed ws err wl now1 w3 now2 w' where
    r: "createReplaySession exClock (exExecFailAt 6) exBranch 3 0 =
        (Inr \<lparr>sessionId = generateReplaySessionId ''s5'' now1,
              sessionTitle = ''Replay of Demo'',
              createdAt = now2,
              steps = filter (\<lambda>s. group s \<le> 2) (steps exBranch) @ replayed,
              sessionReplayOf = Some ''s5'',
              replayFromStepIndex = Some 3,
              isReplaySession = Some True\<rparr>, w')" and
    lt: "length replayed < 3" and
    ws: "length ws = Suc (length replayed)" "ws ! 0 = 0" and
    rj: "exExecFailAt 6 (stepsToReplayInSameGroup exBranch 2 3 ! length replayed)
           (ws ! length replayed) = (Inl err, wl)" and
    c: "exClock wl = (now1, w3)" "exClock w3 = (now2, w')"
    unfolding g exBranch_meta by (auto simp: exBranch_tail)
  have ex: "\<exists>replayed ws err wl now1 w3 now2 w'.
      createReplaySession exClock (exExecFailAt 6) exBranch 3 0 =
        (Inr \<lparr>sessionId = generateReplaySessionId ''s5'' now1,
              sessionTitle = ''Replay of Demo'',
              createdAt = now2,
              steps = filter (\<lambda>s. group s \<le> 2) (steps exBranch) @ replayed,
              sessionReplayOf = Some ''s5'',
              replayFromStepIndex = Some 3,
              isReplaySession = Some True\<rparr>, w') \<and>
      length replayed < 3 \<and> length ws = Suc (length replayed) \<and> ws ! 0 = 0 \<and>
      exExecFailAt 6 (stepsToReplayInSameGroup exBranch 2 3 ! length replayed)
        (ws ! length replayed) = (Inl err, wl) \<and>
      exClock wl = (now1, w3) \<and> exClock w3 = (now2, w')"
    using r lt ws rj c
    by - (rule exI[of _ replayed], rule exI[of _ ws], rule exI[of _ err], rule exI[of _ wl],
          rule exI[of _ now1], rule exI[of _ w3], rule exI[of _ now2], rule exI[of _ w'], blast)
  from exBranch_find_3 mem2 rej concrete ex show ?thesis by - (intro conjI; assumption)
qed

subsection \<open>Prefix preservation and suffix dropping\<close>

lemma replayLoop_group:
  assumes "\<forall>s w r w1. exec s w = (Inr r, w1) \<longrightarrow> group r = group s"
  shows "group ` set (fst (replayLoop clk exec xs [] w)) \<subseteq> group ` set xs"
proof (induction xs arbitrary: w)
  case Nil
  show ?case by simp
next
  case (Cons x xs)
  obtain res wa where e: "exec x w = (res, wa)" by (cases "exec x w")
  show ?case
  proof (cases res)
    case (Inl err)
    with e show ?thesis by (simp add: replayLoop_Cons_reject)
  next
    case (Inr r)
    obtain now wb where c: "clk wa = (now, wb)" by (cases "clk wa")
    have g: "group r = group x" using assms e Inr by blast
    show ?thesis
      using replayLoop_Cons_resolve[of exec x w r wa clk now wb xs] e Inr c g Cons.IH[of wb]
      by auto
  qed
qed

text \<open>
  Claim C2 says that no step of the branch result has a group above the cut step's
  group. The group of a replayed step is the one the executor returned, which
  \<open>createReplaySession\<close> does not check: on the example session cut at step 3 (group 2), an
  executor that answers with steps of group 99 puts three such steps in the result.
\<close>

theorem createReplaySession_regroup_counterexample:
  "stepIndex (steps exBranch ! 2) = 3 \<and> group (steps exBranch ! 2) = 2 \<and>
   \<not> isl (fst (createReplaySession exClock exExecRegroup exBranch 3 0)) \<and>
   map group (steps (projr (fst (createReplaySession exClock exExecRegroup exBranch 3 0)))) =
     [1, 1, 2, 2, 2, 2, 99, 99, 99]"
proof -
  have l: "replayLoop exClock exExecRegroup
             (stepsToReplayInSameGroup exBranch (group (mkStep 3 2 (PromptData ''more'' None))) 3) [] 0 =
           ([(mkStep 4 2 (CommandData ''ls'' ''a'' [] 0))
               \<lparr>group := 99, replayOf := Some 4, timestamp := ''10:00:01.5Z''\<rparr>,
             (mkStep 5 2 (FileEditData ''a.ts'' update ''y''))
               \<lparr>group := 99, replayOf := Some 5, timestamp := ''10:00:03.5Z''\<rparr>,
             (mkStep 6 2 (AssistantResponseData ''summary''))
               \<lparr>group := 99, replayOf := Some 6, timestamp := ''10:00:05.5Z''\<rparr>], 6)"
    by (simp add: exBranch_tail exExecRegroup_def exClock_simps)
  show ?thesis
    using createReplaySession_found[OF exBranch_find_3 l exClock_simps(7) exClock_simps(8)]
    by (simp add: exBranch_prefix exBranch_steps)
qed

text \<open>
  Claim C2 as amended, for executors that do not mutate the step they are given (the
  executors of this model): for a cut index that exists, the steps of the result are the
  steps of the original session whose group is at most the cut step's group, unchanged and
  in their original order, followed by the steps the replay loop returned; every such
  replayed step has the group of an answer that the executor gave for a step to replay;
  and when the executor keeps the group of every step it resolves, no step of the result
  has a group above the cut step's group.
\<close>

theorem createReplaySession_prefix:
  assumes found: "find (\<lambda>s. stepIndex s = i) (steps S) = Some fromStep"
  shows "\<exists>R w' replayed.
           createReplaySession clk exec S i w = (Inr R, w') \<and>
           replayed = fst (replayLoop clk exec (stepsToReplayInSameGroup S (group fromStep) i) [] w) \<and>
           steps R = filter (\<lambda>s. group s \<le> group fromStep) (steps S) @ replayed \<and>
           (\<forall>r \<in> set replayed.
              \<exists>s \<in> set (stepsToReplayInSameGroup S (group fromStep) i). \<exists>w0 out w1.
                exec s w0 = (Inr out, w1) \<and> group r = group out \<and>
                replayOf r = Some (stepIndex s)) \<and>
           ((\<forall>s w r w1. exec s w = (Inr r, w1) \<longrightarrow> group r = group s) \<longrightarrow>
              (\<forall>s \<in> set (steps R). group s \<le> group fromStep))"
proof -
  let ?tail = "stepsToReplayInSameGroup S (group fromStep) i"
  let ?rs = "fst (replayLoop clk exec ?tail [] w)"
  from createReplaySession_found_Inr[OF found, of clk exec w] obtain R w' where
    r: "createReplaySession clk exec S i w = (Inr R, w')" and
    st: "steps R = filter (\<lambda>s. group s \<le> group fromStep) (steps S) @ ?rs"
    by blast
  have tie: "\<forall>r \<in> set ?rs. \<exists>s \<in> set ?tail. \<exists>w0 out w1.
                exec s w0 = (Inr out, w1) \<and> group r = group out \<and>
                replayOf r = Some (stepIndex s)"
  proof
    fix r assume "r \<in> set ?rs"
    then obtain k where k: "k < length ?rs" "?rs ! k = r" by (auto simp: in_set_conv_nth)
    obtain wl where l: "replayLoop clk exec ?tail [] w = (?rs, wl)"
      by (cases "replayLoop clk exec ?tail [] w") simp
    from replayLoop_sequence[OF l] obtain ws where
      le: "length ?rs \<le> length ?tail" and
      each: "\<forall>k < length ?rs. \<exists>out w1 now.
              exec (?tail ! k) (ws ! k) = (Inr out, w1) \<and> clk w1 = (now, ws ! Suc k) \<and>
              ?rs ! k = out\<lparr>replayOf := Some (stepIndex (?tail ! k)), timestamp := now\<rparr>"
      by blast
    from each k(1) obtain out w1 now where
      e: "exec (?tail ! k) (ws ! k) = (Inr out, w1)" and
      v: "?rs ! k = out\<lparr>replayOf := Some (stepIndex (?tail ! k)), timestamp := now\<rparr>"
      by blast
    have m: "?tail ! k \<in> set ?tail" using k(1) le by simp
    have "group r = group out \<and> replayOf r = Some (stepIndex (?tail ! k))"
      using v k(2) by auto
    with e m show "\<exists>s \<in> set ?tail. \<exists>w0 out w1.
                exec s w0 = (Inr out, w1) \<and> group r = group out \<and>
                replayOf r = Some (stepIndex s)"
      by blast
  qed
  have grp: "(\<forall>s w r w1. exec s w = (Inr r, w1) \<longrightarrow> group r = group s) \<longrightarrow>
             (\<forall>s \<in> set (steps R). group s \<le> group fromStep)"
  proof (intro impI ballI)
    fix s assume pres: "\<forall>s w r w1. exec s w = (Inr r, w1) \<longrightarrow> group r = group s"
      and "s \<in> set (steps R)"
    then consider "s \<in> set (filter (\<lambda>s. group s \<le> group fromStep) (steps S))"
      | "s \<in> set ?rs"
      using st by auto
    then show "group s \<le> group fromStep"
    proof cases
      case 1
      then show ?thesis by simp
    next
      case 2
      then have "group s \<in> group ` set ?tail"
        using replayLoop_group[OF pres, of clk ?tail w] by blast
      then show ?thesis by (auto simp: set_stepsToReplayInSameGroup)
    qed
  qed
  show ?thesis
    apply (rule exI[of _ R], rule exI[of _ w'], rule exI[of _ ?rs])
    using r st tie grp by (intro conjI) (assumption | rule refl)+
qed

lemma exExecOk_group: "\<forall>s w r w1. exExecOk s w = (Inr r, w1) \<longrightarrow> group r = group s"
  by (auto simp: exExecOk_def)

text \<open>The amended C2 on the example session with the executor that only retitles.\<close>

theorem createReplaySession_prefix_witness:
  "find (\<lambda>s. stepIndex s = 3) (steps exBranch) = Some (mkStep 3 2 (PromptData ''more'' None)) \<and>
   (\<exists>R w' replayed.
      createReplaySession exClock exExecOk exBranch 3 0 = (Inr R, w') \<and>
      steps R =
        [mkStep 1 1 (PromptData ''start'' None),
         mkStep 2 1 (AssistantResponseData ''ok''),
         mkStep 3 2 (PromptData ''more'' None),
         mkStep 4 2 (CommandData ''ls'' ''a'' [] 0),
         mkStep 5 2 (FileEditData ''a.ts'' update ''y''),
         mkStep 6 2 (AssistantResponseData ''summary'')] @ replayed \<and>
      (\<forall>s \<in> set (steps R). group s \<le> 2))"
proof -
  let ?g = "group (mkStep 3 2 (PromptData ''more'' None))"
  from createReplaySession_prefix[OF exBranch_find_3, of exClock exExecOk 0]
  obtain R w' replayed where
    r: "createReplaySession exClock exExecOk exBranch 3 0 = (Inr R, w')" and
    st0: "steps R = filter (\<lambda>s. group s \<le> ?g) (steps exBranch) @ replayed" and
    imp: "(\<forall>s w r w1. exExecOk s w = (Inr r, w1) \<longrightarrow> group r = group s) \<longrightarrow>
              (\<forall>s \<in> set (steps R). group s \<le> ?g)"
    by blast
  have st: "steps R = filter (\<lambda>s. group s \<le> 2) (steps exBranch) @ replayed"
    using st0 by simp
  have g: "\<forall>s \<in> set (steps R). group s \<le> 2"
    using imp exExecOk_group by simp
  have "\<exists>R w' replayed.
      createReplaySession exClock exExecOk exBranch 3 0 = (Inr R, w') \<and>
      steps R =
        [mkStep 1 1 (PromptData ''start'' None),
         mkStep 2 1 (AssistantResponseData ''ok''),
         mkStep 3 2 (PromptData ''more'' None),
         mkStep 4 2 (CommandData ''ls'' ''a'' [] 0),
         mkStep 5 2 (FileEditData ''a.ts'' update ''y''),
         mkStep 6 2 (AssistantResponseData ''summary'')] @ replayed \<and>
      (\<forall>s \<in> set (steps R). group s \<le> 2)"
    using r st g unfolding exBranch_prefix
    by - (rule exI[of _ R], rule exI[of _ w'], rule exI[of _ replayed], blast)
  with exBranch_find_3 show ?thesis by - (intro conjI; assumption)
qed


section \<open>Properties of the prefix copy on the heap\<close>

lemma lookup_append_old: "a < length h \<Longrightarrow> lookup (h @ xs) a = lookup h a"
  by (simp add: lookup_def nth_append)

lemma isStepRef_append: "isStepRef h a \<Longrightarrow> isStepRef (h @ xs) a"
  by (auto simp: isStepRef_def lookup_def nth_append split: if_splits)

lemma isStepRef_less: "isStepRef h a \<Longrightarrow> a < length h"
  by (auto simp: isStepRef_def lookup_def split: if_splits)

lemma spread_isStepRef: "isStepRef h a \<Longrightarrow> spread h a = Some (length h, h @ [h ! a])"
  by (auto simp: isStepRef_def spread_def alloc_def lookup_def split: if_splits obj.splits)

lemma mapSpread_closed_form:
  assumes "\<forall>a \<in> set as. isStepRef h a"
  shows "mapSpread h as = Some ([length h ..< length h + length as], h @ map (\<lambda>a. h ! a) as)"
  using assms
proof (induction as arbitrary: h)
  case Nil
  show ?case by simp
next
  case (Cons a as)
  let ?h1 = "h @ [h ! a]"
  have a: "isStepRef h a" and rest: "\<forall>b \<in> set as. isStepRef h b" using Cons.prems by simp_all
  have rest1: "\<forall>b \<in> set as. isStepRef ?h1 b" using rest by (simp add: isStepRef_append)
  have same: "map (\<lambda>b. ?h1 ! b) as = map (\<lambda>b. h ! b) as"
    using rest by (auto simp: nth_append dest: isStepRef_less)
  have "mapSpread h (a # as) =
        Some (length h # [length ?h1 ..< length ?h1 + length as], ?h1 @ map (\<lambda>b. ?h1 ! b) as)"
    using spread_isStepRef[OF a] Cons.IH[OF rest1] by simp
  moreover have "[length h ..< length h + length (a # as)] =
             length h # [Suc (length h) ..< length h + length (a # as)]"
    by (rule upt_conv_Cons) simp
  ultimately show ?case unfolding same by simp
qed

lemma filterByGroup_closed_form:
  assumes "\<forall>a \<in> set refs. isStepRef h a"
  shows "\<exists>kept. filterByGroup h g refs = Some kept \<and> set kept \<subseteq> set refs \<and>
           kept = filter (\<lambda>a. \<exists>so. lookup h a = Some (StepObj so) \<and> objGroup so \<le> g) refs"
  using assms
proof (induction refs)
  case Nil
  show ?case by simp
next
  case (Cons a refs)
  then obtain kept where k: "filterByGroup h g refs = Some kept" "set kept \<subseteq> set refs"
    "kept = filter (\<lambda>a. \<exists>so. lookup h a = Some (StepObj so) \<and> objGroup so \<le> g) refs"
    by auto
  from Cons.prems obtain so where so: "lookup h a = Some (StepObj so)"
    by (auto simp: isStepRef_def split: option.splits obj.splits)
  show ?case using k so by auto
qed

lemma stepOf_copy:
  assumes a: "isStepRef h a"
    and k: "k < length kept" and ka: "kept ! k = a" and all: "\<forall>b \<in> set kept. isStepRef h b"
  shows "stepOf (h @ map (\<lambda>b. h ! b) kept) (length h + k) = stepOf h a"
proof -
  let ?h' = "h @ map (\<lambda>b. h ! b) kept"
  from a obtain so where so: "lookup h a = Some (StepObj so)"
    by (auto simp: isStepRef_def split: option.splits obj.splits)
  then have al: "a < length h" and ha: "h ! a = StepObj so"
    by (auto simp: lookup_def split: if_splits)
  have new: "lookup ?h' (length h + k) = Some (StepObj so)"
    using k ka ha by (simp add: lookup_def nth_append)
  have copies: "\<forall>c. length h \<le> c \<longrightarrow> c < length ?h' \<longrightarrow> isStepRef ?h' c"
  proof (intro allI impI)
    fix c assume c: "length h \<le> c" "c < length ?h'"
    then have "c - length h < length kept" by simp
    then have "isStepRef h (kept ! (c - length h))" using all by simp
    then obtain so' where "h ! (kept ! (c - length h)) = StepObj so'"
      by (auto simp: isStepRef_def lookup_def split: if_splits option.splits obj.splits)
    then show "isStepRef ?h' c"
      using c by (simp add: isStepRef_def lookup_def nth_append)
  qed
  have other: "lookup ?h' b = lookup h b \<or>
               (lookup h b = None \<and> (\<exists>so'. lookup ?h' b = Some (StepObj so')))
               \<or> (lookup h b = None \<and> lookup ?h' b = None)" for b
  proof (cases "b < length h")
    case True
    then show ?thesis by (simp add: lookup_append_old)
  next
    case False
    show ?thesis
    proof (cases "b < length ?h'")
      case True
      with False copies have "isStepRef ?h' b" by simp
      then have "\<exists>so'. lookup ?h' b = Some (StepObj so')"
        by (auto simp: isStepRef_def split: option.splits obj.splits)
      moreover have "lookup h b = None" using False by (simp add: lookup_def)
      ultimately show ?thesis by blast
    next
      case False
      then have "lookup ?h' b = None" by (simp add: lookup_def)
      moreover have "lookup h b = None" using \<open>\<not> b < length h\<close> by (simp add: lookup_def)
      ultimately show ?thesis by blast
    qed
  qed
  have d: "(case lookup ?h' b of Some (DataObj d) \<Rightarrow> f d | _ \<Rightarrow> None) =
           (case lookup h b of Some (DataObj d) \<Rightarrow> f d | _ \<Rightarrow> None)" for b and f :: "stepData \<Rightarrow> step option"
    using other[of b] by (auto split: option.splits obj.splits)
  have t: "(case lookup ?h' b of Some (TagsObj ts) \<Rightarrow> f ts | _ \<Rightarrow> None) =
           (case lookup h b of Some (TagsObj ts) \<Rightarrow> f ts | _ \<Rightarrow> None)" for b and f :: "string list \<Rightarrow> step option"
    using other[of b] by (auto split: option.splits obj.splits)
  show ?thesis
  proof (cases "objTags so")
    case None
    then show ?thesis unfolding stepOf_def new so
      by (simp add: d split: option.splits obj.splits)
  next
    case (Some tg)
    have "stepOf ?h' (length h + k) =
            (case lookup ?h' (objData so) of
               Some (DataObj d) \<Rightarrow>
                 (case lookup ?h' tg of
                    Some (TagsObj ts) \<Rightarrow>
                      Some \<lparr>stepIndex = objStepIndex so, timestamp = objTimestamp so,
                            group = objGroup so, title = objTitle so, tags = Some ts,
                            replayOf = objReplayOf so, data = d\<rparr>
                  | _ \<Rightarrow> None)
             | _ \<Rightarrow> None)"
      unfolding stepOf_def new by (simp add: Some split: option.splits obj.splits)
    also have "\<dots> =
            (case lookup h (objData so) of
               Some (DataObj d) \<Rightarrow>
                 (case lookup ?h' tg of
                    Some (TagsObj ts) \<Rightarrow>
                      Some \<lparr>stepIndex = objStepIndex so, timestamp = objTimestamp so,
                            group = objGroup so, title = objTitle so, tags = Some ts,
                            replayOf = objReplayOf so, data = d\<rparr>
                  | _ \<Rightarrow> None)
             | _ \<Rightarrow> None)"
      by (rule d)
    also have "\<dots> = stepOf h a"
      unfolding stepOf_def so by (simp add: Some t split: option.splits obj.splits)
    finally show ?thesis .
  qed
qed

text \<open>
  Claim C9 as amended: the copy is shallow. For step references that all hold step
  objects, the prefix copy returns one new step object per kept step, at an address that
  was not allocated before, and leaves every old object as it was. A new object has the
  properties of the original one, with the same references to the payload object and the
  tags array, so it stands for the same step value. Assigning a property of a copied step
  object leaves the old heap as it was; mutating the payload through a copied step is the
  same heap update as mutating it through the original step.
\<close>

theorem unchangedStepsRefs_shallow_copy:
  assumes wf: "\<forall>a \<in> set refs. isStepRef h a"
  shows "\<exists>kept new h'.
           filterByGroup h g refs = Some kept \<and>
           unchangedStepsRefs h refs g = Some (new, h') \<and>
           length new = length kept \<and> distinct new \<and> take (length h) h' = h \<and>
           (\<forall>k < length new.
              length h \<le> new ! k \<and>
              lookup h' (new ! k) = lookup h (kept ! k) \<and>
              stepOf h' (new ! k) = stepOf h (kept ! k) \<and>
              (\<forall>t. take (length h) (writeTitle h' (new ! k) t) = h) \<and>
              (\<forall>d. writeData h' (new ! k) d = writeData h' (kept ! k) d))"
proof -
  from filterByGroup_closed_form[OF wf, of g] obtain kept where
    f: "filterByGroup h g refs = Some kept" and sub: "set kept \<subseteq> set refs"
    by blast
  have wk: "\<forall>a \<in> set kept. isStepRef h a" using wf sub by blast
  let ?new = "[length h ..< length h + length kept]"
  let ?h' = "h @ map (\<lambda>a. h ! a) kept"
  have u: "unchangedStepsRefs h refs g = Some (?new, ?h')"
    by (simp add: unchangedStepsRefs_def f mapSpread_closed_form[OF wk])
  have each: "length h \<le> ?new ! k \<and>
              lookup ?h' (?new ! k) = lookup h (kept ! k) \<and>
              stepOf ?h' (?new ! k) = stepOf h (kept ! k) \<and>
              (\<forall>t. take (length h) (writeTitle ?h' (?new ! k) t) = h) \<and>
              (\<forall>d. writeData ?h' (?new ! k) d = writeData ?h' (kept ! k) d)"
    if k: "k < length ?new" for k
  proof -
    from k have kk: "k < length kept" by simp
    then have n: "?new ! k = length h + k" by simp
    have sr: "isStepRef h (kept ! k)" using wk kk by simp
    then have lt: "kept ! k < length h" by (rule isStepRef_less)
    have l: "lookup ?h' (length h + k) = lookup h (kept ! k)"
      using kk lt by (simp add: lookup_def nth_append)
    have s: "stepOf ?h' (length h + k) = stepOf h (kept ! k)"
      by (rule stepOf_copy[OF sr kk refl wk])
    have old: "lookup ?h' (kept ! k) = lookup h (kept ! k)"
      using lt by (rule lookup_append_old)
    have wt: "take (length h) (writeTitle ?h' (length h + k) t) = h" for t
      by (cases "lookup ?h' (length h + k)")
         (auto simp: writeTitle_def take_update_cancel split: obj.splits)
    have wd: "writeData ?h' (length h + k) d = writeData ?h' (kept ! k) d" for d
      by (simp add: writeData_def l old)
    show ?thesis unfolding n using l s wt wd by simp
  qed
  show ?thesis
    using f u each
    by - (rule exI[of _ kept], rule exI[of _ ?new], rule exI[of _ ?h'], simp)
qed

lemma exHeap_copy: "unchangedStepsRefs exHeap [0] 1 = Some ([2], exHeapCopied)"
  by (simp add: unchangedStepsRefs_def spread_def alloc_def lookup_def exHeap_def
      exHeapCopied_def exStepObj_def)

text \<open>
  Claim C9 says that the copied prefix shares no mutable payload with the original
  session. After the copy of the example heap, the step object at address 2 is the copy of
  the one at address 0; a mutation of the payload through the copy changes the step that
  the original reference stands for.
\<close>

theorem unchangedStepsRefs_alias_counterexample:
  "unchangedStepsRefs exHeap [0] 1 = Some ([2], exHeapCopied) \<and>
   stepOf exHeapCopied 0 = Some (mkStep 1 1 (CommandData ''ls'' ''a'' [] 0)) \<and>
   stepOf (writeData exHeapCopied 2 (CommandData ''rm'' ''a'' [] 0)) 0 =
     Some (mkStep 1 1 (CommandData ''rm'' ''a'' [] 0))"
  by (simp add: exHeap_copy stepOf_def writeData_def lookup_def exHeapCopied_def
      exStepObj_def mkStep_def)

text \<open>
  The sharing also works the other way round, which is why the branch constructor's
  model above is about executors that do not mutate the step they are given: the executor
  receives the original step objects, and a mutation of the payload through the original
  reference (address 0) changes the step that the copied reference (address 2) stands for.
\<close>

lemma exHeap_write_through_original:
  "stepOf exHeapCopied 2 = Some (mkStep 1 1 (CommandData ''ls'' ''a'' [] 0)) \<and>
   stepOf (writeData exHeapCopied 0 (CommandData ''rm'' ''a'' [] 0)) 2 =
     Some (mkStep 1 1 (CommandData ''rm'' ''a'' [] 0))"
  by (simp add: stepOf_def writeData_def lookup_def exHeapCopied_def exStepObj_def mkStep_def)

text \<open>The amended C9 on the example heap.\<close>

theorem unchangedStepsRefs_shallow_copy_witness:
  "isStepRef exHeap 0 \<and>
   (\<exists>kept new h'.
      filterByGroup exHeap 1 [0] = Some kept \<and>
      unchangedStepsRefs exHeap [0] 1 = Some (new, h') \<and>
      length new = length kept \<and> distinct new \<and> take (length exHeap) h' = exHeap \<and>
      (\<forall>k < length new.
         length exHeap \<le> new ! k \<and>
         lookup h' (new ! k) = lookup exHeap (kept ! k) \<and>
         stepOf h' (new ! k) = stepOf exHeap (kept ! k) \<and>
         (\<forall>t. take (length exHeap) (writeTitle h' (new ! k) t) = exHeap) \<and>
         (\<forall>d. writeData h' (new ! k) d = writeData h' (kept ! k) d)))"
proof -
  have r: "isStepRef exHeap 0"
    by (simp add: isStepRef_def lookup_def exHeap_def)
  then have wf: "\<forall>a \<in> set [0]. isStepRef exHeap a" by simp
  from r unchangedStepsRefs_shallow_copy[OF wf, of 1] show ?thesis by (rule conjI)
qed

lemma stepOf_Some_obj:
  "stepOf h a = Some s \<Longrightarrow> \<exists>so. lookup h a = Some (StepObj so) \<and> objGroup so = group s"
  by (auto simp: stepOf_def split: option.splits obj.splits)

lemma stepOf_Some_isStepRef: "stepOf h a = Some s \<Longrightarrow> isStepRef h a"
  by (auto simp: isStepRef_def dest: stepOf_Some_obj)

lemma filter_refs_refines:
  assumes "map (stepOf h) refs = map Some ss"
  shows "map (stepOf h)
           (filter (\<lambda>a. \<exists>so. lookup h a = Some (StepObj so) \<and> objGroup so \<le> g) refs) =
         map Some (filter (\<lambda>s. group s \<le> g) ss)"
  using assms
proof (induction refs arbitrary: ss)
  case Nil
  then show ?case by simp
next
  case (Cons a refs)
  then obtain s ss' where ss: "ss = s # ss'" and a: "stepOf h a = Some s"
    and rest: "map (stepOf h) refs = map Some ss'"
    by (cases ss) auto
  from stepOf_Some_obj[OF a] obtain so where "lookup h a = Some (StepObj so)" "objGroup so = group s"
    by blast
  then show ?case using Cons.IH[OF rest] a ss by simp
qed

text \<open>
  The copy on the heap computes what the value-level \<open>unchangedSteps\<close> computes: if the
  references \<open>refs\<close> stand for the steps of the session, the new references stand for the
  session's unchanged steps.
\<close>

lemma unchangedStepsRefs_refines:
  assumes abs: "map (stepOf h) refs = map Some (steps S)"
  shows "\<exists>new h'. unchangedStepsRefs h refs g = Some (new, h') \<and>
           map (stepOf h') new = map Some (unchangedSteps S g)"
proof -
  have wf: "\<forall>a \<in> set refs. isStepRef h a"
  proof
    fix a assume "a \<in> set refs"
    then have "stepOf h a \<in> set (map Some (steps S))"
      using abs by (metis image_eqI set_map)
    then obtain s where "stepOf h a = Some s" by auto
    then show "isStepRef h a" by (rule stepOf_Some_isStepRef)
  qed
  from filterByGroup_closed_form[OF wf, of g] obtain kept where
    f: "filterByGroup h g refs = Some kept" and sub: "set kept \<subseteq> set refs" and
    k: "kept = filter (\<lambda>a. \<exists>so. lookup h a = Some (StepObj so) \<and> objGroup so \<le> g) refs"
    by blast
  have wk: "\<forall>a \<in> set kept. isStepRef h a" using wf sub by blast
  let ?new = "[length h ..< length h + length kept]"
  let ?h' = "h @ map (\<lambda>a. h ! a) kept"
  have u: "unchangedStepsRefs h refs g = Some (?new, ?h')"
    by (simp add: unchangedStepsRefs_def f mapSpread_closed_form[OF wk])
  have "map (stepOf ?h') ?new = map (stepOf h) kept"
  proof (rule nth_equalityI)
    show "length (map (stepOf ?h') ?new) = length (map (stepOf h) kept)" by simp
  next
    fix i assume "i < length (map (stepOf ?h') ?new)"
    then have i: "i < length kept" by simp
    then have "isStepRef h (kept ! i)" using wk by simp
    from stepOf_copy[OF this i refl wk] show "map (stepOf ?h') ?new ! i = map (stepOf h) kept ! i"
      using i by simp
  qed
  also have "\<dots> = map Some (unchangedSteps S g)"
    unfolding k unchangedSteps_def using filter_refs_refines[OF abs, of g] by simp
  finally show ?thesis using u by blast
qed


section \<open>Properties of the line-level diff\<close>

lemma concat_splitLines: "concat (splitLines s) = s"
  by (induction s) (auto split: list.splits)

lemma editScript_old:
  "map snd (filter (\<lambda>e. fst e \<noteq> lineAdded) (editScript xs ys)) = xs"
  by (induction xs ys rule: editScript.induct) (auto simp: o_def)

lemma editScript_new:
  "map snd (filter (\<lambda>e. fst e \<noteq> lineRemoved) (editScript xs ys)) = ys"
  by (induction xs ys rule: editScript.induct) (auto simp: o_def)

lemma editScript_same: "editScript xs xs = map (Pair lineUnchanged) xs"
  by (induction xs) auto

lemma groupRuns_concat:
  "concat (map segText (filter (\<lambda>s. P (segKind s)) (groupRuns es))) =
   concat (map snd (filter (\<lambda>e. P (fst e)) es))"
proof (induction es)
  case Nil
  show ?case by simp
next
  case (Cons e es)
  obtain k l where e: "e = (k, l)" by (cases e)
  show ?case
  proof (cases "groupRuns es")
    case Nil
    with Cons.IH show ?thesis by (simp add: e)
  next
    case (Cons seg segs)
    with Cons.IH show ?thesis by (auto simp: e)
  qed
qed

lemma set_segKind_groupRuns: "segKind ` set (groupRuns es) = fst ` set es"
proof (induction es)
  case Nil
  show ?case by simp
next
  case (Cons e es)
  obtain k l where e: "e = (k, l)" by (cases e)
  show ?case
  proof (cases "groupRuns es")
    case Nil
    with Cons.IH show ?thesis by (simp add: e)
  next
    case (Cons seg segs)
    with Cons.IH show ?thesis by (auto simp: e)
  qed
qed

text \<open>The runs are maximal: neighbouring segments differ in kind.\<close>

lemma distinct_adj_groupRuns: "distinct_adj (map segKind (groupRuns es))"
proof (induction es)
  case Nil
  show ?case by simp
next
  case (Cons e es)
  obtain k l where e: "e = (k, l)" by (cases e)
  show ?case
  proof (cases "groupRuns es")
    case Nil
    then show ?thesis by (simp add: e)
  next
    case (Cons seg segs)
    with Cons.IH show ?thesis by (auto simp: e)
  qed
qed

text \<open>The script keeps as many lines as a longest common subsequence has.\<close>

lemma lcsLength_editScript:
  "length (filter (\<lambda>e. fst e = lineUnchanged) (editScript xs ys)) = lcsLength xs ys"
  by (induction xs ys rule: editScript.induct) (auto simp: o_def max_def)


text \<open>
  Claim C6. \<open>diffLines\<close> is a total function, so it returns for any two texts, the empty
  text included. The segments of kind unchanged or removed, in order, concatenate to the old
  text and those of kind unchanged or added to the new text; \<open>diffLines x x\<close> has only
  unchanged segments, which concatenate to \<open>x\<close>, and \<open>diffLines [] y\<close> has only added
  segments, which concatenate to \<open>y\<close>.
\<close>

theorem diffLines_reconstructs:
  "concat (map segText (filter (\<lambda>s. segKind s = lineUnchanged \<or> segKind s = lineRemoved)
             (diffLines oldText newText))) = oldText \<and>
   concat (map segText (filter (\<lambda>s. segKind s = lineUnchanged \<or> segKind s = lineAdded)
             (diffLines oldText newText))) = newText \<and>
   segKind ` set (diffLines x x) \<subseteq> {lineUnchanged} \<and>
   concat (map segText (diffLines x x)) = x \<and>
   segKind ` set (diffLines [] y) \<subseteq> {lineAdded} \<and>
   concat (map segText (diffLines [] y)) = y"
proof -
  let ?es = "editScript (splitLines oldText) (splitLines newText)"
  have ua: "(k = lineUnchanged \<or> k = lineRemoved) = (k \<noteq> lineAdded)"
    and ur: "(k = lineUnchanged \<or> k = lineAdded) = (k \<noteq> lineRemoved)" for k
    by (cases k; simp)+
  have old: "concat (map segText (filter (\<lambda>s. segKind s = lineUnchanged \<or> segKind s = lineRemoved)
             (diffLines oldText newText))) = oldText"
    unfolding diffLines_def
    using groupRuns_concat[of "\<lambda>k. k = lineUnchanged \<or> k = lineRemoved" ?es]
    by (simp add: ua editScript_old concat_splitLines)
  have new: "concat (map segText (filter (\<lambda>s. segKind s = lineUnchanged \<or> segKind s = lineAdded)
             (diffLines oldText newText))) = newText"
    unfolding diffLines_def
    using groupRuns_concat[of "\<lambda>k. k = lineUnchanged \<or> k = lineAdded" ?es]
    by (simp add: ur editScript_new concat_splitLines)
  have all: "concat (map segText (groupRuns es)) = concat (map snd es)" for es
    using groupRuns_concat[of "\<lambda>k. True" es] by simp
  have same_kind: "segKind ` set (diffLines x x) \<subseteq> {lineUnchanged}"
    by (auto simp: diffLines_def set_segKind_groupRuns editScript_same)
  have same_text: "concat (map segText (diffLines x x)) = x"
    by (simp add: diffLines_def all editScript_same o_def concat_splitLines)
  have add_kind: "segKind ` set (diffLines [] y) \<subseteq> {lineAdded}"
    by (auto simp: diffLines_def set_segKind_groupRuns)
  have add_text: "concat (map segText (diffLines [] y)) = y"
    by (simp add: diffLines_def all o_def concat_splitLines)
  from old new same_kind same_text add_kind add_text show ?thesis by (intro conjI)
qed

lemma exTexts_lines:
  "splitLines exOldText = [''a'' @ [CHR 0x0A], ''b'' @ [CHR 0x0A], ''c'']"
  "splitLines exNewText = [''a'' @ [CHR 0x0A], ''x'' @ [CHR 0x0A], ''c'']"
  by (simp_all add: exOldText_def exNewText_def)

lemma exTexts_diff:
  "diffLines exOldText exNewText =
     [\<lparr>segKind = lineUnchanged, segText = ''a'' @ [CHR 0x0A]\<rparr>,
      \<lparr>segKind = lineRemoved, segText = ''b'' @ [CHR 0x0A]\<rparr>,
      \<lparr>segKind = lineAdded, segText = ''x'' @ [CHR 0x0A]\<rparr>,
      \<lparr>segKind = lineUnchanged, segText = ''c''\<rparr>]"
  by (simp add: diffLines_def exTexts_lines)

text \<open>C6 on the two example texts.\<close>

theorem diffLines_reconstructs_witness:
  "diffLines exOldText exNewText =
     [\<lparr>segKind = lineUnchanged, segText = ''a'' @ [CHR 0x0A]\<rparr>,
      \<lparr>segKind = lineRemoved, segText = ''b'' @ [CHR 0x0A]\<rparr>,
      \<lparr>segKind = lineAdded, segText = ''x'' @ [CHR 0x0A]\<rparr>,
      \<lparr>segKind = lineUnchanged, segText = ''c''\<rparr>] \<and>
   concat (map segText (filter (\<lambda>s. segKind s = lineUnchanged \<or> segKind s = lineRemoved)
             (diffLines exOldText exNewText))) = exOldText \<and>
   concat (map segText (filter (\<lambda>s. segKind s = lineUnchanged \<or> segKind s = lineAdded)
             (diffLines exOldText exNewText))) = exNewText"
  using diffLines_reconstructs[of exOldText exNewText] exTexts_diff by (intro conjI) blast+


end
